theory Spec2Isabelle
  imports Main "HOL-Library.AList"
begin

section \<open>Python strings and character classes\<close>

text \<open>
  A Python \<^verbatim>\<open>str\<close> is a sequence of Unicode code points, so a string is a list of
  natural numbers. \<open>ustr\<close> reads an ASCII literal as such a string.
\<close>

type_synonym pystr = "nat list"

definition ustr :: "string \<Rightarrow> pystr" where
  "ustr s = map of_char s"

text \<open>
  The whitespace of \<^verbatim>\<open>str.strip()\<close> and of \<^verbatim>\<open>\s\<close> in a \<^verbatim>\<open>str\<close> pattern: the code
  points for which \<^verbatim>\<open>str.isspace()\<close> holds.
\<close>

definition isspace :: "nat \<Rightarrow> bool" where
  "isspace c = ((9 \<le> c \<and> c \<le> 13) \<or> (28 \<le> c \<and> c \<le> 32) \<or> c = 133 \<or> c = 160
     \<or> c = 5760 \<or> (8192 \<le> c \<and> c \<le> 8202) \<or> c = 8232 \<or> c = 8233 \<or> c = 8239
     \<or> c = 8287 \<or> c = 12288)"

definition strip :: "pystr \<Rightarrow> pystr" where
  "strip s = rev (dropWhile isspace (rev (dropWhile isspace s)))"

definition upper :: "nat \<Rightarrow> bool" where
  "upper c = (65 \<le> c \<and> c \<le> 90)"

definition lower :: "nat \<Rightarrow> bool" where
  "lower c = (97 \<le> c \<and> c \<le> 122)"

definition digit :: "nat \<Rightarrow> bool" where
  "digit c = (48 \<le> c \<and> c \<le> 57)"

definition alpha :: "nat \<Rightarrow> bool" where
  "alpha c = (upper c \<or> lower c)"

text \<open>
  The class of the dash variants (the hyphen, the en dash U+2013 and the em dash U+2014),
  written \<^verbatim>\<open>D\<close> in the patterns quoted below, and the class of the quotes (U+0022, U+201C
  and U+201D), written \<^verbatim>\<open>Q\<close>.
\<close>

definition dash :: "nat \<Rightarrow> bool" where
  "dash c = (c = 45 \<or> c = 8211 \<or> c = 8212)"

definition quote :: "nat \<Rightarrow> bool" where
  "quote c = (c = 34 \<or> c = 8220 \<or> c = 8221)"

text \<open>The bullet U+2022.\<close>

definition bullet :: nat where
  "bullet = 8226"

text \<open>\<^verbatim>\<open>.\<close> without DOTALL: any code point but the newline.\<close>

definition anychar :: "nat \<Rightarrow> bool" where
  "anychar c = (c \<noteq> 10)"

definition lit :: "nat \<Rightarrow> nat \<Rightarrow> bool" where
  "lit k c = (c = k)"

text \<open>\<^verbatim>\<open>[a-zA-Z0-9._%+-]\<close> and \<^verbatim>\<open>[a-zA-Z0-9.-]\<close>.\<close>

definition email_local :: "nat \<Rightarrow> bool" where
  "email_local c = (alpha c \<or> digit c \<or> c = 46 \<or> c = 95 \<or> c = 37 \<or> c = 43 \<or> c = 45)"

definition email_domain :: "nat \<Rightarrow> bool" where
  "email_domain c = (alpha c \<or> digit c \<or> c = 46 \<or> c = 45)"

text \<open>
  \<^verbatim>\<open>\w\<close> in a \<^verbatim>\<open>str\<close> pattern: the ASCII letters and digits, the underscore, and every
  other code point that \<^verbatim>\<open>str.isalnum()\<close> accepts. Python takes the latter from the
  Unicode database, which is no part of the repository: the table is the parameter
  \<open>U\<close>, read only above ASCII and never at whitespace, a dash, a quote or the bullet
  (none of which is alphanumeric).
\<close>

definition word :: "(nat \<Rightarrow> bool) \<Rightarrow> nat \<Rightarrow> bool" where
  "word U c = (alpha c \<or> digit c \<or> c = 95 \<or>
     (128 \<le> c \<and> U c \<and> \<not> isspace c \<and> \<not> dash c \<and> \<not> quote c \<and> c \<noteq> bullet))"

text \<open>The table with no alphanumeric code point above ASCII, for ASCII inputs.\<close>

definition ascii_only :: "nat \<Rightarrow> bool" where
  "ascii_only c = False"

section \<open>Regular expressions as Python's backtracking matcher runs them\<close>

datatype rx = Cls "nat \<Rightarrow> bool" | Eps | Seq rx rx | Alt rx rx | Star rx | LazyStar rx

text \<open>
  \<open>rmatch r s\<close> lists what is left of \<open>s\<close> after each way \<open>r\<close> matches a prefix of it,
  in the order in which the backtracking matcher tries them: a greedy star tries one
  more iteration before it stops, a lazy one stops first. The first element is the
  match Python reports. An iteration that consumes nothing is not repeated.
\<close>

function rmatch :: "rx \<Rightarrow> pystr \<Rightarrow> pystr list" where
  "rmatch (Cls p) s = (case s of [] \<Rightarrow> [] | c # cs \<Rightarrow> if p c then [cs] else [])"
| "rmatch Eps s = [s]"
| "rmatch (Seq a b) s = concat (map (rmatch b) (rmatch a s))"
| "rmatch (Alt a b) s = rmatch a s @ rmatch b s"
| "rmatch (Star a) s =
     concat (map (rmatch (Star a)) (filter (\<lambda>t. length t < length s) (rmatch a s))) @ [s]"
| "rmatch (LazyStar a) s =
     s # concat (map (rmatch (LazyStar a)) (filter (\<lambda>t. length t < length s) (rmatch a s)))"
  by pat_completeness auto
termination
  by (relation "inv_image (less_than <*lex*> less_than) (\<lambda>(r, s). (size r, length s))") auto

definition Plus :: "rx \<Rightarrow> rx" where
  "Plus r = Seq r (Star r)"

definition LazyPlus :: "rx \<Rightarrow> rx" where
  "LazyPlus r = Seq r (LazyStar r)"

definition Opt :: "rx \<Rightarrow> rx" where
  "Opt r = Alt r Eps"

fun seqs :: "rx list \<Rightarrow> rx" where
  "seqs [] = Eps"
| "seqs [r] = r"
| "seqs (r # rs) = Seq r (seqs rs)"

text \<open>\<^verbatim>\<open>re.match(r, s)\<close> as a truth value: some match starts at the first character.\<close>

definition re_match :: "rx \<Rightarrow> pystr \<Rightarrow> bool" where
  "re_match r s = (rmatch r s \<noteq> [])"

text \<open>
  \<^verbatim>\<open>re.search(r, s)\<close>: the leftmost position with a match, as (the text before it, the
  matched text \<^verbatim>\<open>.group()\<close>, the text after it).
\<close>

fun re_search :: "rx \<Rightarrow> pystr \<Rightarrow> (pystr \<times> pystr \<times> pystr) option" where
  "re_search r [] = (case rmatch r [] of t # _ \<Rightarrow> Some ([], [], []) | [] \<Rightarrow> None)"
| "re_search r (c # cs) =
     (case rmatch r (c # cs) of
        t # _ \<Rightarrow> Some ([], take (length (c # cs) - length t) (c # cs), t)
      | [] \<Rightarrow> (case re_search r cs of
                 None \<Rightarrow> None
               | Some (b, m, a) \<Rightarrow> Some (c # b, m, a)))"

text \<open>
  \<^verbatim>\<open>re.split(r, s)\<close> and \<^verbatim>\<open>re.sub(r, repl, s)\<close> for a pattern without groups whose
  matches are never empty, which holds of every pattern the program splits on or
  substitutes (each needs a dash, a quote or a bullet); the last branch is not reached
  for them.
\<close>

function re_split :: "rx \<Rightarrow> pystr \<Rightarrow> pystr list" where
  "re_split r s =
     (case re_search r s of
        None \<Rightarrow> [s]
      | Some (b, m, a) \<Rightarrow> if length a < length s then b # re_split r a else [b, a])"
  by pat_completeness auto
termination
  by (relation "measure (\<lambda>(r, s). length s)") auto

function re_sub :: "rx \<Rightarrow> pystr \<Rightarrow> pystr \<Rightarrow> pystr" where
  "re_sub r repl s =
     (case re_search r s of
        None \<Rightarrow> s
      | Some (b, m, a) \<Rightarrow>
          if length a < length s then b @ repl @ re_sub r repl a else b @ repl @ a)"
  by pat_completeness auto
termination
  by (relation "measure (\<lambda>(r, repl, s). length s)") auto

section \<open>Data\<close>

datatype py_error = TypeError | IndexError | KeyError

text \<open>The values the program puts into its dictionaries and into the output.\<close>

datatype pyval = PNone | PStr pystr | PList "pyval list" | PDict "(pystr \<times> pyval) list"

fun truthy :: "pyval \<Rightarrow> bool" where
  "truthy PNone = False"
| "truthy (PStr s) = (s \<noteq> [])"
| "truthy (PList vs) = (vs \<noteq> [])"
| "truthy (PDict kvs) = (kvs \<noteq> [])"

text \<open>What a \<^verbatim>\<open>for\<close> loop over a value visits (\<^verbatim>\<open>None\<close> is not iterable; it is falsy and
  never iterated by the program).\<close>

fun py_iter :: "pyval \<Rightarrow> pyval list" where
  "py_iter (PList vs) = vs"
| "py_iter (PStr s) = map (\<lambda>c. PStr [c]) s"
| "py_iter (PDict kvs) = map (\<lambda>kv. PStr (fst kv)) kvs"
| "py_iter PNone = []"

fun py_opt :: "pystr option \<Rightarrow> pyval" where
  "py_opt None = PNone"
| "py_opt (Some s) = PStr s"

fun py_strs :: "pyval \<Rightarrow> pystr list" where
  "py_strs (PList vs) = concat (map (\<lambda>v. case v of PStr s \<Rightarrow> [s] | _ \<Rightarrow> []) vs)"
| "py_strs v = []"

text \<open>An element of \<^verbatim>\<open>content\<close>: the dictionary \<^verbatim>\<open>{"section": ..., "text": ...}\<close>.\<close>

record item =
  item_section :: "pystr option"
  item_text :: pystr

record contact_info =
  name :: "pystr option"
  email :: "pystr option"
  job_title :: "pystr option"

record entry =
  section_name :: pystr
  section_content :: pyval

record document =
  sharePointRef :: pyval
  sections :: "entry list"

definition REQUIRED_SECTIONS :: "pystr list" where
  "REQUIRED_SECTIONS = [ustr ''Name'', ustr ''Email'', ustr ''Job Title'',
     ustr ''Executive Summary'', ustr ''Technical Expertise'', ustr ''Functional Expertise'',
     ustr ''Experience'', ustr ''Mobility'', ustr ''Industry Sectors'',
     ustr ''Languages Spoken'', ustr ''Certifications'', ustr ''Methodologies'']"

definition BULLET_SECTIONS :: "pystr list" where
  "BULLET_SECTIONS = [ustr ''Technical Expertise'', ustr ''Functional Expertise'',
     ustr ''Industry Sectors'', ustr ''Languages Spoken'', ustr ''Certifications'',
     ustr ''Methodologies'']"

definition LONGFORM_SECTIONS :: "pystr list" where
  "LONGFORM_SECTIONS = [ustr ''Executive Summary'', ustr ''Mobility'', ustr ''Name'',
     ustr ''Email'', ustr ''Job Title'']"

section \<open>Reading the spans of a document\<close>



fun read_span :: "pystr option \<times> item list \<Rightarrow> pystr \<Rightarrow> pystr option \<times> item list" where
  "read_span (current_section, content) span_text =
     (let text_val = strip span_text in
      if text_val \<in> set REQUIRED_SECTIONS then (Some text_val, content)
      else (current_section,
            content @ [\<lparr>item_section = current_section, item_text = text_val\<rparr>]))"


section \<open>The contact extractor\<close>

text \<open>
  The header pattern \<^verbatim>\<open>[A-Z]\.\s[A-Za-z]+(?:\s[A-Za-z]+)?\sD\sQ(.+?)Q\<close> and the email
  pattern \<^verbatim>\<open>[a-zA-Z0-9._%+-]+@[a-zA-Z0-9.-]+\.[a-zA-Z]{2,}\<close>.
\<close>

definition header_pattern :: rx where
  "header_pattern = seqs [Cls upper, Cls (lit 46), Cls isspace, Plus (Cls alpha),
     Opt (Seq (Cls isspace) (Plus (Cls alpha))), Cls isspace, Cls dash, Cls isspace,
     Cls quote, LazyPlus (Cls anychar), Cls quote]"

definition email_pattern :: rx where
  "email_pattern = seqs [Plus (Cls email_local), Cls (lit 64), Plus (Cls email_domain),
     Cls (lit 46), Cls alpha, Cls alpha, Star (Cls alpha)]"

text \<open>\<^verbatim>\<open>\s*D\s*\<close>, on which the header is split.\<close>

definition header_split_pattern :: rx where
  "header_split_pattern = seqs [Star (Cls isspace), Cls dash, Star (Cls isspace)]"

text \<open>
  The loop \<^verbatim>\<open>for item in content\<close>, which removes from the list it iterates: the
  iterator is the index \<open>i\<close> into the current list, \<^verbatim>\<open>content.remove(item)\<close> deletes the
  first element equal to \<open>item\<close>, and the index moves on by one either way.
\<close>

function scan_contacts ::
  "nat \<Rightarrow> item list \<Rightarrow> pystr option \<Rightarrow> pystr option \<Rightarrow> pystr option \<times> pystr option \<times> item list"
where
  "scan_contacts i content hdr eml =
     (if i < length content then
        (if re_match header_pattern (item_text (content ! i)) then
           scan_contacts (Suc i) (remove1 (content ! i) content)
             (Some (item_text (content ! i))) eml
         else
           (case re_search email_pattern (item_text (content ! i)) of
              Some (b, m, a) \<Rightarrow>
                scan_contacts (Suc i) (remove1 (content ! i) content) hdr (Some m)
            | None \<Rightarrow> scan_contacts (Suc i) content hdr eml))
      else (hdr, eml, content))"
  by pat_completeness auto
termination
  by (relation "measure (\<lambda>(i, content, hdr, eml). length content - i)")
    (auto simp: length_remove1)

text \<open>
  \<^verbatim>\<open>_extract_contact_information\<close>: the contact fields and the list as the loop left
  it. \<^verbatim>\<open>re.sub\<close> on \<^verbatim>\<open>None\<close> raises \<^verbatim>\<open>TypeError\<close>, \<^verbatim>\<open>header[1]\<close> on a one-element list
  \<^verbatim>\<open>IndexError\<close>.
\<close>

definition extract_contact_information ::
  "item list \<Rightarrow> py_error + (contact_info \<times> item list)" where
  "extract_contact_information content =
     (case scan_contacts 0 content None None of
        (hdr, eml, content') \<Rightarrow>
          (case (if truthy (py_opt hdr) then Some (re_split header_split_pattern (the hdr))
                 else None) of
             None \<Rightarrow> Inl TypeError
           | Some parts \<Rightarrow>
               (case parts of
                  p0 # p1 # _ \<Rightarrow>
                    (let job = re_sub (Cls quote) [] p1 in
                     Inr (\<lparr>name = Some p0,
                           email = (if truthy (py_opt eml) then eml else None),
                           job_title = (if job \<noteq> [] then Some job else None)\<rparr>,
                          content'))
                | _ \<Rightarrow> Inl IndexError)))"

section \<open>The experience segmenter\<close>

text \<open>
  The header-line pattern \<^verbatim>\<open>^[A-Z][a-z]*(?:\s+\w+)*\sD\s\w+(?:\s\w+)*\sD\s\w+(?:\s\w+)*\<close>,
  the bullet pattern (a bullet, then \<^verbatim>\<open>\s*\<close>) and the separator \<^verbatim>\<open>\sD\s\<close>.
\<close>

definition exp_header_pattern :: "(nat \<Rightarrow> bool) \<Rightarrow> rx" where
  "exp_header_pattern U = seqs [Cls upper, Star (Cls lower),
     Star (Seq (Plus (Cls isspace)) (Plus (Cls (word U)))),
     Cls isspace, Cls dash, Cls isspace, Plus (Cls (word U)),
     Star (Seq (Cls isspace) (Plus (Cls (word U)))),
     Cls isspace, Cls dash, Cls isspace, Plus (Cls (word U)),
     Star (Seq (Cls isspace) (Plus (Cls (word U))))]"

definition bullet_pattern :: rx where
  "bullet_pattern = Seq (Cls (lit bullet)) (Star (Cls isspace))"

definition exp_split_pattern :: rx where
  "exp_split_pattern = seqs [Cls isspace, Cls dash, Cls isspace]"

text \<open>The list \<^verbatim>\<open>sections\<close> of \<^verbatim>\<open>_experienceHeaderHelper\<close>.\<close>

definition header_fields :: "pystr \<Rightarrow> pystr list" where
  "header_fields line =
     map strip (filter (\<lambda>part. strip part \<noteq> [])
       (re_split exp_split_pattern (strip (re_sub bullet_pattern [] line))))"

definition experienceHeaderHelper :: "pystr \<Rightarrow> py_error + pyval" where
  "experienceHeaderHelper line =
     (case header_fields line of
        s0 # s1 # s2 # _ \<Rightarrow>
          Inr (PDict [(ustr ''project_title'', if s0 \<noteq> [] then PStr s0 else PNone),
                      (ustr ''project_position'', if s1 \<noteq> [] then PStr s1 else PNone),
                      (ustr ''project_industry'', if s2 \<noteq> [] then PStr s2 else PNone)])
      | _ \<Rightarrow> Inl IndexError)"

text \<open>
  One turn of the loop of \<^verbatim>\<open>_experience_section_helper\<close> on the state
  (\<^verbatim>\<open>project_info\<close>, \<^verbatim>\<open>project_details\<close>, \<^verbatim>\<open>project_contents\<close>); the buffer
  \<^verbatim>\<open>project_contents\<close> is \<^verbatim>\<open>None\<close> or a list.
\<close>

type_synonym exp_state = "pyval list \<times> pystr list option list \<times> pystr list option"

definition exp_step :: "(nat \<Rightarrow> bool) \<Rightarrow> exp_state \<Rightarrow> pystr \<Rightarrow> py_error + exp_state" where
  "exp_step U st line =
     (case st of (project_info, project_details, project_contents) \<Rightarrow>
        if re_match (exp_header_pattern U) line then
          (case experienceHeaderHelper line of
             Inl e \<Rightarrow> Inl e
           | Inr info \<Rightarrow>
               if project_contents \<noteq> None \<and> project_contents \<noteq> Some [] then
                 Inr (project_info @ [info], project_details @ [project_contents], Some [])
               else Inr (project_info @ [info], project_details, project_contents))
        else if project_contents \<noteq> None \<and> project_contents \<noteq> Some [] then
          Inr (project_info, project_details, Some (the project_contents @ [line]))
        else Inr (project_info, project_details, Some [line]))"

fun exp_loop :: "(nat \<Rightarrow> bool) \<Rightarrow> exp_state \<Rightarrow> pystr list \<Rightarrow> py_error + exp_state" where
  "exp_loop U st [] = Inr st"
| "exp_loop U st (line # lines) =
     (case exp_step U st line of
        Inl e \<Rightarrow> Inl e
      | Inr st' \<Rightarrow> exp_loop U st' lines)"

definition project :: "pyval \<times> pystr list option \<Rightarrow> pyval" where
  "project p =
     PDict [(ustr ''project_header'', fst p),
            (ustr ''project_details'',
               (case snd p of None \<Rightarrow> PNone | Some ls \<Rightarrow> PList (map PStr ls)))]"

definition experience_section_helper ::
  "(nat \<Rightarrow> bool) \<Rightarrow> pystr list \<Rightarrow> py_error + pyval list" where
  "experience_section_helper U lines =
     (case exp_loop U ([], [], None) lines of
        Inl e \<Rightarrow> Inl e
      | Inr (project_info, project_details, project_contents) \<Rightarrow>
          Inr (map project (zip project_info (project_details @ [project_contents]))))"

section \<open>Aggregation and assembly\<close>

text \<open>
  The dictionary \<^verbatim>\<open>sections_map\<close> is an association list in insertion order; an
  assignment to a key it has keeps the key's place.
\<close>

type_synonym sections_map = "(pystr \<times> pyval) list"

definition py_append :: "pyval \<Rightarrow> pyval \<Rightarrow> pyval" where
  "py_append l v = (case l of PList vs \<Rightarrow> PList (vs @ [v]) | _ \<Rightarrow> l)"

definition agg_step ::
  "pystr option \<times> sections_map \<Rightarrow> item \<Rightarrow> pystr option \<times> sections_map" where
  "agg_step st it =
     (case st of (current_section, m) \<Rightarrow>
        (let txt = strip (item_text it);
             cur = (if truthy (py_opt (item_section it)) then Some (strip (the (item_section it)))
                    else current_section)
         in if truthy (py_opt cur) \<and> txt \<noteq> [] then
              (case map_of m (the cur) of
                 Some v \<Rightarrow>
                   (cur, AList.update (the cur)
                      (if truthy v then py_append v (PStr txt) else PList [PStr txt]) m)
               | None \<Rightarrow> (cur, m))
            else (cur, m)))"

text \<open>The loop of lines 173 to 181: only \<^verbatim>\<open>Experience\<close> is processed.\<close>

definition process_section ::
  "(nat \<Rightarrow> bool) \<Rightarrow> py_error + sections_map \<Rightarrow> pystr \<Rightarrow> py_error + sections_map" where
  "process_section U r s =
     (case r of
        Inl e \<Rightarrow> Inl e
      | Inr m \<Rightarrow>
          (case map_of m s of
             None \<Rightarrow> Inl KeyError
           | Some v \<Rightarrow>
               if \<not> truthy v then Inr m
               else if s = ustr ''Experience'' then
                 (case experience_section_helper U (py_strs v) of
                    Inl e \<Rightarrow> Inl e
                  | Inr ps \<Rightarrow> Inr (AList.update s (PList ps) m))
               else Inr m))"

definition section_entries :: "sections_map \<Rightarrow> pystr \<Rightarrow> entry list" where
  "section_entries m s =
     (case map_of m s of
        None \<Rightarrow> []
      | Some v \<Rightarrow>
          if truthy v then
            (if s \<in> set LONGFORM_SECTIONS then [\<lparr>section_name = s, section_content = v\<rparr>]
             else map (\<lambda>val. \<lparr>section_name = s, section_content = val\<rparr>)
                    (filter truthy (py_iter v)))
          else [])"

definition build_content_list :: "sections_map \<Rightarrow> entry list" where
  "build_content_list m = concat (map (section_entries m) (map fst m))"

definition aggregate :: "item list \<Rightarrow> pystr option \<times> sections_map" where
  "aggregate content =
     foldl agg_step (None, map (\<lambda>s. (s, PList [])) REQUIRED_SECTIONS) content"

definition parse_profile :: "(nat \<Rightarrow> bool) \<Rightarrow> item list \<Rightarrow> py_error + document" where
  "parse_profile U content =
     (case extract_contact_information content of
        Inl e \<Rightarrow> Inl e
      | Inr (contact_sections, content') \<Rightarrow>
          (let m1 = snd (aggregate content');
               m2 = AList.update (ustr ''Name'') (py_opt (name contact_sections)) m1;
               m3 = AList.update (ustr ''Email'') (py_opt (email contact_sections)) m2;
               m4 = AList.update (ustr ''Job Title'') (py_opt (job_title contact_sections)) m3
           in case foldl (process_section U) (Inr m4) REQUIRED_SECTIONS of
                Inl e \<Rightarrow> Inl e
              | Inr m5 \<Rightarrow> Inr \<lparr>sharePointRef = PNone, sections = build_content_list m5\<rparr>))"

section \<open>Notions used in the statements\<close>

text \<open>The entries of a document that carry a given section name, in their order.\<close>

definition entries_named :: "pystr \<Rightarrow> entry list \<Rightarrow> entry list" where
  "entries_named s es = filter (\<lambda>e. section_name e = s) es"

text \<open>
  A contact fragment is one the scan of the contact extractor acts on: its text matches
  the header pattern at its start, or holds a match of the email pattern.
\<close>

definition is_contact :: "item \<Rightarrow> bool" where
  "is_contact it = (re_match header_pattern (item_text it) \<or>
     re_search email_pattern (item_text it) \<noteq> None)"

text \<open>No contact fragment is directly followed by another one.\<close>

fun no_adjacent_contacts :: "item list \<Rightarrow> bool" where
  "no_adjacent_contacts [] = True"
| "no_adjacent_contacts [x] = True"
| "no_adjacent_contacts (x # y # zs) =
     ((is_contact x \<and> is_contact y) = False \<and> no_adjacent_contacts (y # zs))"

text \<open>
  The texts of the header fragments, and the email matches of the fragments that hold one
  and are no header fragments, in stream order.
\<close>

definition is_header :: "item \<Rightarrow> bool" where
  "is_header it = re_match header_pattern (item_text it)"

definition email_match_of :: "item \<Rightarrow> pystr list" where
  "email_match_of it =
     (if re_match header_pattern (item_text it) then []
      else (case re_search email_pattern (item_text it) of
              Some (b, m, a) \<Rightarrow> [m]
            | None \<Rightarrow> []))"

definition header_texts :: "item list \<Rightarrow> pystr list" where
  "header_texts content = map item_text (filter is_header content)"

definition email_matches :: "item list \<Rightarrow> pystr list" where
  "email_matches content = concat (map email_match_of content)"

text \<open>
  A text is blank when it is empty or holds whitespace only; a value has a blank when it
  is, or holds at any depth, a blank string.
\<close>

definition blank :: "pystr \<Rightarrow> bool" where
  "blank s = list_all isspace s"



section \<open>Notions used in the proofs\<close>

definition last_or :: "'a option \<Rightarrow> 'a list \<Rightarrow> 'a option" where
  "last_or d xs = (if xs = [] then d else Some (last xs))"

text \<open>The language of a pattern: the texts a match of it may consume.\<close>

inductive_set star :: "pystr set \<Rightarrow> pystr set" for A :: "pystr set" where
  star_Nil: "[] \<in> star A"
| star_App: "x \<in> A \<Longrightarrow> y \<in> star A \<Longrightarrow> x @ y \<in> star A"

fun lang :: "rx \<Rightarrow> pystr set" where
  "lang (Cls p) = {[c] | c. p c}"
| "lang Eps = {[]}"
| "lang (Seq a b) = {x @ y | x y. x \<in> lang a \<and> y \<in> lang b}"
| "lang (Alt a b) = lang a \<union> lang b"
| "lang (Star a) = star (lang a)"
| "lang (LazyStar a) = star (lang a)"

text \<open>What the header helper returns, and the invariant of the segmenter's loop.\<close>

definition header_ok :: "pyval \<Rightarrow> bool" where
  "header_ok h = (\<exists>line. experienceHeaderHelper line = Inr h)"

definition exp_inv :: "(nat \<Rightarrow> bool) \<Rightarrow> pystr set \<Rightarrow> exp_state \<Rightarrow> bool" where
  "exp_inv U L st =
     (case st of (info, details, contents) \<Rightarrow>
        (\<forall>h \<in> set info. header_ok h) \<and>
        (\<forall>d \<in> set details. \<exists>ls. d = Some ls \<and> set ls \<subseteq> L) \<and>
        (\<forall>ls. contents = Some ls \<longrightarrow> set ls \<subseteq> L))"

text \<open>Invariants of the reader, of the aggregation and of the sections map.\<close>

definition tag_ok :: "pystr option \<Rightarrow> bool" where
  "tag_ok c = (c = None \<or> (\<exists>s \<in> set REQUIRED_SECTIONS. c = Some s))"

definition read_inv :: "pystr option \<times> item list \<Rightarrow> bool" where
  "read_inv st = (tag_ok (fst st) \<and>
     (fst st = None \<longrightarrow> (\<forall>it \<in> set (snd st). item_section it = None)))"

definition lists_only :: "sections_map \<Rightarrow> bool" where
  "lists_only m = (\<forall>kv \<in> set m. \<exists>vs. snd kv = PList vs)"



text \<open>A character that is neither a dash nor the bullet.\<close>

definition plain :: "nat \<Rightarrow> bool" where
  "plain c = (\<not> dash c \<and> c \<noteq> bullet)"

section \<open>Evaluation and basic facts\<close>

declare scan_contacts.simps [simp del] re_split.simps [simp del] re_sub.simps [simp del]
  rmatch.simps(5,6) [simp del]

lemmas cls_defs = isspace_def upper_def lower_def digit_def alpha_def dash_def quote_def
  anychar_def lit_def email_local_def email_domain_def word_def bullet_def

lemmas rx_defs = Plus_def LazyPlus_def Opt_def re_match_def header_pattern_def
  email_pattern_def exp_header_pattern_def header_split_pattern_def bullet_pattern_def
  exp_split_pattern_def

lemmas prog_defs = extract_contact_information_def parse_profile_def aggregate_def
  agg_step_def process_section_def section_entries_def build_content_list_def
  experience_section_helper_def exp_step_def project_def experienceHeaderHelper_def
  header_fields_def strip_def py_append_def REQUIRED_SECTIONS_def LONGFORM_SECTIONS_def
  BULLET_SECTIONS_def

lemmas eval_defs = prog_defs rx_defs cls_defs ustr_def scan_contacts.simps re_split.simps
  re_sub.simps rmatch.simps

subsection \<open>The keys of the sections map\<close>

lemma update_keys_present:
  "map_of m k = Some v \<Longrightarrow> map fst (AList.update k w m) = map fst m"
  by (simp add: update_keys map_of_eq_None_iff [symmetric])

lemma agg_step_keys: "map fst (snd (agg_step st it)) = map fst (snd st)"
  by (cases st) (auto simp: agg_step_def Let_def update_keys_present split: option.splits)

lemma foldl_agg_keys: "map fst (snd (foldl agg_step st content)) = map fst (snd st)"
  by (induction content arbitrary: st) (simp_all add: agg_step_keys)

lemma aggregate_keys: "map fst (snd (aggregate content)) = REQUIRED_SECTIONS"
  by (simp add: aggregate_def foldl_agg_keys comp_def)

lemma process_section_keys:
  "process_section U (Inr m) s = Inr m' \<Longrightarrow> map fst m' = map fst m"
  by (auto simp: process_section_def update_keys_present
      split: option.splits if_splits sum.splits)

lemma process_section_Inl [simp]: "process_section U (Inl e) s = Inl e"
  by (simp add: process_section_def)

lemma foldl_process_Inl [simp]: "foldl (process_section U) (Inl e) ss = Inl e"
  by (induction ss) simp_all

lemma foldl_process_keys:
  "foldl (process_section U) (Inr m) ss = Inr m' \<Longrightarrow> map fst m' = map fst m"
proof (induction ss arbitrary: m)
  case Nil
  then show ?case by simp
next
  case (Cons s ss)
  show ?case
  proof (cases "process_section U (Inr m) s")
    case (Inl e)
    with Cons.prems show ?thesis by simp
  next
    case (Inr m1)
    with Cons.prems have "foldl (process_section U) (Inr m1) ss = Inr m'" by simp
    then have "map fst m' = map fst m1" by (rule Cons.IH)
    with Inr show ?thesis by (simp add: process_section_keys)
  qed
qed

lemma section_entries_name: "e \<in> set (section_entries m s) \<Longrightarrow> section_name e = s"
  by (auto simp: section_entries_def split: option.splits if_splits)

lemma build_content_list_names:
  "e \<in> set (build_content_list m) \<Longrightarrow> section_name e \<in> set (map fst m)"
  by (auto simp: build_content_list_def dest: section_entries_name)

lemma parse_profile_keys:
  assumes "parse_profile U content = Inr doc"
  shows "\<exists>m. map fst m = REQUIRED_SECTIONS \<and> sections doc = build_content_list m"
proof -
  from assms obtain ci content'
    where ex: "extract_contact_information content = Inr (ci, content')"
    by (auto simp: parse_profile_def split: sum.splits)
  define m4 where "m4 = AList.update (ustr ''Job Title'') (py_opt (job_title ci))
     (AList.update (ustr ''Email'') (py_opt (email ci))
       (AList.update (ustr ''Name'') (py_opt (name ci)) (snd (aggregate content'))))"
  have k4: "map fst m4 = REQUIRED_SECTIONS"
    unfolding m4_def by (simp add: update_keys aggregate_keys) (simp add: REQUIRED_SECTIONS_def)
  from assms ex obtain m5
    where m5: "foldl (process_section U) (Inr m4) REQUIRED_SECTIONS = Inr m5"
      and doc: "doc = \<lparr>sharePointRef = PNone, sections = build_content_list m5\<rparr>"
    by (auto simp: parse_profile_def Let_def m4_def split: sum.splits)
  from m5 have "map fst m5 = map fst m4" by (rule foldl_process_keys)
  with k4 doc show ?thesis by auto
qed

subsection \<open>The scan of the contact extractor\<close>

lemma scan_contacts_no_header:
  "hdr = None \<Longrightarrow> \<forall>it \<in> set content. \<not> re_match header_pattern (item_text it) \<Longrightarrow>
   fst (scan_contacts i content hdr eml) = None"
proof (induction i content hdr eml rule: scan_contacts.induct)
  case (1 i content hdr eml)
  show ?case
  proof (cases "i < length content")
    case False
    then show ?thesis using "1.prems" by (subst scan_contacts.simps) simp
  next
    case True
    then have nh: "\<not> re_match header_pattern (item_text (content ! i))"
      using "1.prems"(2) by simp
    show ?thesis
    proof (cases "re_search email_pattern (item_text (content ! i))")
      case None
      from "1.IH"(2) [OF True nh None "1.prems"]
      show ?thesis using True nh None
        by (subst scan_contacts.simps) simp
    next
      case (Some bma)
      obtain b m a where bma: "bma = (b, m, a)" by (cases bma) auto
      have sub: "\<forall>it \<in> set (remove1 (content ! i) content).
          \<not> re_match header_pattern (item_text it)"
        using "1.prems"(2) by (meson notin_set_remove1)
      have e1: "(b, (m, a)) = bma" using bma by simp
      have e2: "(m, a) = (m, a)" by simp
      from "1.IH"(3) [OF True nh Some e1 e2 "1.prems"(1) sub]
      show ?thesis using True nh Some bma
        by (subst scan_contacts.simps) simp
    qed
  qed
qed

lemma last_or_Nil [simp]: "last_or d [] = d"
  by (simp add: last_or_def)

lemma last_or_Cons [simp]: "last_or d (x # xs) = last_or (Some x) xs"
  by (simp add: last_or_def)

lemma no_adjacent_tail: "no_adjacent_contacts (x # xs) \<Longrightarrow> no_adjacent_contacts xs"
  by (cases xs) simp_all

lemma header_texts_Cons:
  "header_texts (x # xs) =
     (if re_match header_pattern (item_text x) then [item_text x] else []) @ header_texts xs"
  by (simp add: header_texts_def is_header_def)

lemma email_matches_Cons:
  "email_matches (x # xs) =
     (if re_match header_pattern (item_text x) then []
      else (case re_search email_pattern (item_text x) of
              Some (b, m, a) \<Rightarrow> [m] | None \<Rightarrow> [])) @ email_matches xs"
  by (simp add: email_matches_def email_match_of_def)

lemma not_contact_simps:
  "\<not> is_contact x \<Longrightarrow> \<not> re_match header_pattern (item_text x)"
  "\<not> is_contact x \<Longrightarrow> re_search email_pattern (item_text x) = None"
  unfolding is_contact_def by blast+

lemma scan_contacts_clean:
  "\<forall>x \<in> set pre. \<not> is_contact x \<Longrightarrow> no_adjacent_contacts rest \<Longrightarrow>
   scan_contacts (length pre) (pre @ rest) h e =
     (last_or h (header_texts rest), last_or e (email_matches rest),
      pre @ filter (\<lambda>x. \<not> is_contact x) rest)"
proof (induction rest arbitrary: pre h e rule: length_induct)
  case (1 rest)
  show ?case
  proof (cases rest)
    case Nil
    then show ?thesis
      by (subst scan_contacts.simps) (simp add: header_texts_def email_matches_def)
  next
    case (Cons x xs)
    have nth: "(pre @ x # xs) ! length pre = x" by simp
    have lt: "length pre < length (pre @ x # xs)" by simp
    show ?thesis
    proof (cases "is_contact x")
      case False
      have pre': "\<forall>y \<in> set (pre @ [x]). \<not> is_contact y"
        using "1.prems"(1) False by simp
      have na: "no_adjacent_contacts xs"
        using "1.prems"(2) Cons by (auto dest: no_adjacent_tail)
      have "length xs < length rest" using Cons by simp
      with "1.IH" pre' na
      have ih: "scan_contacts (length (pre @ [x])) ((pre @ [x]) @ xs) h e =
         (last_or h (header_texts xs), last_or e (email_matches xs),
          (pre @ [x]) @ filter (\<lambda>x. \<not> is_contact x) xs)"
        by blast
      have "scan_contacts (length pre) (pre @ x # xs) h e =
            scan_contacts (Suc (length pre)) (pre @ x # xs) h e"
        using False by (subst scan_contacts.simps) (simp add: not_contact_simps)
      with ih False Cons show ?thesis
        by (simp add: header_texts_Cons email_matches_Cons not_contact_simps)
    next
      case True
      have notin: "x \<notin> set pre" using "1.prems"(1) True by auto
      then have rm: "remove1 x (pre @ x # xs) = pre @ xs"
        by (simp add: remove1_append)
      define h' where "h' = (if re_match header_pattern (item_text x)
                             then Some (item_text x) else h)"
      define e' where "e' = (if re_match header_pattern (item_text x) then e
                             else (case re_search email_pattern (item_text x) of
                                     Some (b, m, a) \<Rightarrow> Some m | None \<Rightarrow> e))"
      have step: "scan_contacts (length pre) (pre @ x # xs) h e =
                  scan_contacts (Suc (length pre)) (pre @ xs) h' e'"
        using True
        by (subst scan_contacts.simps)
           (auto simp: rm h'_def e'_def is_contact_def split: option.splits)
      have hx: "last_or h (header_texts (x # ys)) = last_or h' (header_texts ys)" for ys
        by (simp add: header_texts_Cons h'_def)
      have ex: "last_or e (email_matches (x # ys)) = last_or e' (email_matches ys)" for ys
        by (auto simp: email_matches_Cons e'_def split: option.splits)
      show ?thesis
      proof (cases xs)
        case Nil
        have "scan_contacts (Suc (length pre)) (pre @ []) h' e' = (h', e', pre)"
          by (subst scan_contacts.simps) simp
        with step Nil Cons True hx [of "[]"] ex [of "[]"] show ?thesis
          by (simp add: header_texts_def email_matches_def)
      next
        case (Cons y ys)
        with "1.prems"(2) \<open>rest = x # xs\<close> True have ny: "\<not> is_contact y" by simp
        have pre': "\<forall>z \<in> set (pre @ [y]). \<not> is_contact z"
          using "1.prems"(1) ny by simp
        have na: "no_adjacent_contacts ys"
          using "1.prems"(2) \<open>rest = x # xs\<close> Cons
          by (auto dest!: no_adjacent_tail)
        have "length ys < length rest" using \<open>rest = x # xs\<close> Cons by simp
        with "1.IH" pre' na
        have ih: "scan_contacts (length (pre @ [y])) ((pre @ [y]) @ ys) h' e' =
           (last_or h' (header_texts ys), last_or e' (email_matches ys),
            (pre @ [y]) @ filter (\<lambda>x. \<not> is_contact x) ys)"
          by blast
        have hy: "header_texts (y # ys) = header_texts ys"
          using ny by (simp add: header_texts_Cons not_contact_simps)
        have ey: "email_matches (y # ys) = email_matches ys"
          using ny by (simp add: email_matches_Cons not_contact_simps)
        have hxy: "last_or h (header_texts (x # y # ys)) = last_or h' (header_texts ys)"
          using hx [of "y # ys"] hy by simp
        have exy: "last_or e (email_matches (x # y # ys)) = last_or e' (email_matches ys)"
          using ex [of "y # ys"] ey by simp
        from step ih Cons \<open>rest = x # xs\<close> True ny hxy exy show ?thesis
          by simp
      qed
    qed
  qed
qed

lemma extract_scan:
  assumes "extract_contact_information content = Inr (ci, content')"
  shows "email ci = (if truthy (py_opt (fst (snd (scan_contacts 0 content None None))))
            then fst (snd (scan_contacts 0 content None None)) else None) \<and>
         content' = snd (snd (scan_contacts 0 content None None))"
proof -
  obtain hdr eml c where sc: "scan_contacts 0 content None None = (hdr, eml, c)"
    by (cases "scan_contacts 0 content None None") auto
  from assms show ?thesis
    unfolding extract_contact_information_def sc
    by (simp split: option.splits list.splits if_splits add: Let_def) auto
qed

subsection \<open>Patterns\<close>

lemma rmatch_sound:
  "t \<in> set (rmatch r s) \<Longrightarrow> \<exists>p \<in> lang r. s = p @ t"
proof (induction r s arbitrary: t rule: rmatch.induct)
  case (1 p s)
  then show ?case by (cases s) (auto split: if_splits)
next
  case (2 s)
  then show ?case by simp
next
  case (3 a b s)
  from "3.prems" obtain u where u: "u \<in> set (rmatch a s)" and t: "t \<in> set (rmatch b u)"
    by auto
  from "3.IH"(1) [OF u] obtain p1 where p1: "p1 \<in> lang a" "s = p1 @ u" by blast
  from "3.IH"(2) [OF u t] obtain p2 where p2: "p2 \<in> lang b" "u = p2 @ t" by blast
  from p1 p2 have "p1 @ p2 \<in> lang (Seq a b)" "s = (p1 @ p2) @ t" by auto
  then show ?case by blast
next
  case (4 a b s)
  then show ?case by auto
next
  case (5 a s)
  have eq: "rmatch (Star a) s = concat (map (rmatch (Star a))
      (filter (\<lambda>t. length t < length s) (rmatch a s))) @ [s]"
    by (rule rmatch.simps(5))
  from "5.prems" have "t \<in> set (concat (map (rmatch (Star a))
      (filter (\<lambda>t. length t < length s) (rmatch a s))) @ [s])"
    by (simp only: eq)
  then consider "t = s"
    | u where "u \<in> set (rmatch a s)" "length u < length s" "t \<in> set (rmatch (Star a) u)"
    by auto
  then show ?case
  proof cases
    case 1
    then show ?thesis by (auto intro: star.star_Nil)
  next
    case 2
    from "5.IH"(1) [OF 2(1)] obtain p1 where p1: "p1 \<in> lang a" "s = p1 @ u" by blast
    from 2 have "u \<in> set (filter (\<lambda>t. length t < length s) (rmatch a s))" by simp
    from "5.IH"(2) [OF this 2(3)] obtain p2 where p2: "p2 \<in> lang (Star a)" "u = p2 @ t"
      by blast
    from p1 p2 have "p1 @ p2 \<in> lang (Star a)" "s = (p1 @ p2) @ t"
      by (auto intro: star.star_App)
    then show ?thesis by blast
  qed
next
  case (6 a s)
  have eq: "rmatch (LazyStar a) s = s # concat (map (rmatch (LazyStar a))
      (filter (\<lambda>t. length t < length s) (rmatch a s)))"
    by (rule rmatch.simps(6))
  from "6.prems" have "t \<in> set (s # concat (map (rmatch (LazyStar a))
      (filter (\<lambda>t. length t < length s) (rmatch a s))))"
    by (simp only: eq)
  then consider "t = s"
    | u where "u \<in> set (rmatch a s)" "length u < length s" "t \<in> set (rmatch (LazyStar a) u)"
    by auto
  then show ?case
  proof cases
    case 1
    then show ?thesis by (auto intro: star.star_Nil)
  next
    case 2
    from "6.IH"(1) [OF 2(1)] obtain p1 where p1: "p1 \<in> lang a" "s = p1 @ u" by blast
    from 2 have "u \<in> set (filter (\<lambda>t. length t < length s) (rmatch a s))" by simp
    from "6.IH"(2) [OF this 2(3)] obtain p2 where p2: "p2 \<in> lang (LazyStar a)" "u = p2 @ t"
      by blast
    from p1 p2 have "p1 @ p2 \<in> lang (LazyStar a)" "s = (p1 @ p2) @ t"
      by (auto intro: star.star_App)
    then show ?thesis by blast
  qed
qed

lemma re_search_sound:
  "re_search r s = Some (b, m, a) \<Longrightarrow> s = b @ m @ a \<and> m \<in> lang r"
proof (induction s arbitrary: b)
  case Nil
  then have "rmatch r [] \<noteq> []" and bma: "b = []" "m = []" "a = []"
    by (auto split: list.splits)
  then obtain t where "t \<in> set (rmatch r [])" by (cases "rmatch r []") auto
  from rmatch_sound [OF this] have "[] \<in> lang r" by auto
  with bma show ?case by simp
next
  case (Cons c cs)
  show ?case
  proof (cases "rmatch r (c # cs)")
    case Nil
    with Cons.prems obtain b' where "re_search r cs = Some (b', m, a)" "b = c # b'"
      by (auto split: option.splits)
    with Cons.IH show ?thesis by auto
  next
    case (Cons t ts)
    with Cons.prems have bma: "b = []" "m = take (length (c # cs) - length t) (c # cs)" "a = t"
      by auto
    from Cons have "t \<in> set (rmatch r (c # cs))" by simp
    from rmatch_sound [OF this] obtain p where p: "p \<in> lang r" "c # cs = p @ t" by blast
    then have "take (length (c # cs) - length t) (c # cs) = p" by simp
    with bma p show ?thesis by simp
  qed
qed

lemma lang_seqs_Cons: "rs \<noteq> [] \<Longrightarrow> lang (seqs (r # rs)) = {x @ y | x y. x \<in> lang r \<and> y \<in> lang (seqs rs)}"
  by (cases rs) simp_all

lemma lang_Seq_Cls_first:
  "m \<in> lang (Seq (Seq (Cls p) r1) r2) \<Longrightarrow> \<exists>c cs. m = c # cs \<and> p c"
  by auto

lemma email_pattern_first:
  assumes "m \<in> lang email_pattern"
  shows "\<exists>c cs. m = c # cs \<and> email_local c"
  using assms unfolding email_pattern_def Plus_def seqs.simps
  by (rule lang_Seq_Cls_first)




lemma email_match_nonempty:
  "re_search email_pattern s = Some (b, m, a) \<Longrightarrow> m \<noteq> []"
  using re_search_sound email_pattern_first by blast

lemma email_matches_nonempty: "x \<in> set (email_matches content) \<Longrightarrow> x \<noteq> []"
  by (auto simp: email_matches_def email_match_of_def split: if_splits option.splits
      dest: email_match_nonempty [OF sym])

subsection \<open>The experience segmenter\<close>

lemma header_fields_nonempty: "x \<in> set (header_fields line) \<Longrightarrow> x \<noteq> []"
  by (auto simp: header_fields_def)

lemma experienceHeaderHelper_Inr:
  assumes "experienceHeaderHelper line = Inr h"
  shows "\<exists>s0 s1 s2 rest. header_fields line = s0 # s1 # s2 # rest \<and>
     h = PDict [(ustr ''project_title'', PStr s0), (ustr ''project_position'', PStr s1),
                (ustr ''project_industry'', PStr s2)]"
proof -
  from assms obtain s0 s1 s2 rest where hf: "header_fields line = s0 # s1 # s2 # rest"
    by (auto simp: experienceHeaderHelper_def split: list.splits)
  have "s0 \<noteq> []" "s1 \<noteq> []" "s2 \<noteq> []"
    using header_fields_nonempty [of _ line] hf by simp_all
  with assms hf show ?thesis
    by (simp add: experienceHeaderHelper_def)
qed

lemma exp_step_inv:
  assumes "exp_step U st line = Inr st'" and "exp_inv U L st" and "line \<in> L"
  shows "exp_inv U L st'"
proof -
  obtain info details contents where st: "st = (info, details, contents)"
    by (cases st) auto
  show ?thesis
  proof (cases "re_match (exp_header_pattern U) line")
    case True
    with assms(1) st obtain h where h: "experienceHeaderHelper line = Inr h"
      by (auto simp: exp_step_def split: sum.splits)
    then have "header_ok h" by (auto simp: header_ok_def)
    with assms True st h show ?thesis
      by (auto simp: exp_step_def exp_inv_def split: if_splits)
  next
    case False
    with assms st show ?thesis
      by (auto simp: exp_step_def exp_inv_def split: if_splits)
  qed
qed

lemma exp_loop_inv:
  "exp_loop U st lines = Inr st' \<Longrightarrow> exp_inv U L st \<Longrightarrow> set lines \<subseteq> L \<Longrightarrow> exp_inv U L st'"
proof (induction lines arbitrary: st)
  case Nil
  then show ?case by simp
next
  case (Cons line lines)
  from Cons.prems(1) obtain st1 where s1: "exp_step U st line = Inr st1"
    and l1: "exp_loop U st1 lines = Inr st'"
    by (auto split: sum.splits)
  from s1 Cons.prems have "exp_inv U L st1" by (auto intro: exp_step_inv)
  with l1 Cons.prems show ?case by (auto intro: Cons.IH)
qed

text \<open>The buffer is \<^verbatim>\<open>None\<close> only while every line seen is a header line.\<close>

lemma exp_step_None:
  assumes "exp_step U st line = Inr st'" and "snd (snd st') = None"
  shows "snd (snd st) = None \<and> re_match (exp_header_pattern U) line"
  using assms by (cases st) (auto simp: exp_step_def split: if_splits sum.splits)

lemma exp_loop_None:
  "exp_loop U st lines = Inr st' \<Longrightarrow> snd (snd st') = None \<Longrightarrow>
   snd (snd st) = None \<and> (\<forall>l \<in> set lines. re_match (exp_header_pattern U) l)"
proof (induction lines arbitrary: st)
  case Nil
  then show ?case by simp
next
  case (Cons line lines)
  from Cons.prems(1) obtain st1 where s1: "exp_step U st line = Inr st1"
    and l1: "exp_loop U st1 lines = Inr st'"
    by (auto split: sum.splits)
  from Cons.IH [OF l1 Cons.prems(2)] have a: "snd (snd st1) = None"
    and b: "\<forall>l \<in> set lines. re_match (exp_header_pattern U) l" by auto
  from exp_step_None [OF s1 a] b show ?case by simp
qed

lemma experience_section_helper_shape:
  assumes "experience_section_helper U lines = Inr projects" and "p \<in> set projects"
  shows "\<exists>h d. p = PDict [(ustr ''project_header'', h), (ustr ''project_details'', d)] \<and>
     header_ok h \<and>
     ((d = PNone \<and> (\<forall>l \<in> set lines. re_match (exp_header_pattern U) l)) \<or>
      (\<exists>ls. d = PList (map PStr ls) \<and> set ls \<subseteq> set lines))"
proof -
  from assms(1) obtain info details contents
    where loop: "exp_loop U ([], [], None) lines = Inr (info, details, contents)"
      and ps: "projects = map project (zip info (details @ [contents]))"
    by (auto simp: experience_section_helper_def split: sum.splits)
  have "exp_inv U (set lines) ([], [], None)" by (simp add: exp_inv_def)
  from exp_loop_inv [OF loop this] have inv: "exp_inv U (set lines) (info, details, contents)"
    by simp
  from assms(2) ps obtain h d where hd: "(h, d) \<in> set (zip info (details @ [contents]))"
    and p: "p = project (h, d)" by auto
  from hd have hin: "h \<in> set info" and din: "d \<in> set (details @ [contents])"
    by (auto dest: set_zip_leftD set_zip_rightD)
  from inv hin have hok: "header_ok h" by (simp add: exp_inv_def)
  show ?thesis
  proof (cases d)
    case None
    with din inv have "contents = None" by (auto simp: exp_inv_def)
    with exp_loop_None [OF loop] have "\<forall>l \<in> set lines. re_match (exp_header_pattern U) l"
      by simp
    with None p hok show ?thesis by (simp add: project_def)
  next
    case (Some ls)
    with din inv have "set ls \<subseteq> set lines" by (auto simp: exp_inv_def)
    with Some p hok show ?thesis by (auto simp: project_def)
  qed
qed

subsection \<open>The assembler\<close>

lemma filter_section_entries:
  "filter (\<lambda>e. section_name e = s) (section_entries m k) =
     (if k = s then section_entries m s else [])"
proof (cases "k = s")
  case True
  then show ?thesis
    by (simp add: filter_id_conv section_entries_name)
next
  case False
  then show ?thesis
    by (auto simp: filter_empty_conv dest: section_entries_name)
qed

lemma concat_single_key:
  "distinct ks \<Longrightarrow>
   concat (map (\<lambda>k. if k = s then X else []) ks) = (if s \<in> set ks then X else [])"
  by (induction ks) auto

lemma entries_named_build:
  assumes "distinct (map fst m)"
  shows "entries_named s (build_content_list m) =
     (if s \<in> set (map fst m) then section_entries m s else [])"
proof -
  have "entries_named s (build_content_list m) =
        concat (map (\<lambda>k. filter (\<lambda>e. section_name e = s) (section_entries m k)) (map fst m))"
    by (simp add: entries_named_def build_content_list_def filter_concat comp_def)
  also have "\<dots> = concat (map (\<lambda>k. if k = s then section_entries m s else []) (map fst m))"
    by (simp only: filter_section_entries)
  also have "\<dots> = (if s \<in> set (map fst m) then section_entries m s else [])"
    using assms by (rule concat_single_key)
  finally show ?thesis .
qed

lemma map_of_keys: "map_of m s = Some v \<Longrightarrow> s \<in> set (map fst m)"
  by (metis map_of_eq_None_iff option.distinct(1) set_map)

lemma filter_truthy_strs: "[] \<notin> set vals \<Longrightarrow> filter truthy (map PStr vals) = map PStr vals"
  by (induction vals) auto

lemmas section_lists = BULLET_SECTIONS_def LONGFORM_SECTIONS_def ustr_def

subsection \<open>Stripping and blank texts\<close>

lemma last_dropWhile: "dropWhile P xs \<noteq> [] \<Longrightarrow> last (dropWhile P xs) = last xs"
  by (induction xs) (auto split: if_splits)

lemma strip_idem: "strip (strip s) = strip s"
proof -
  define u where "u = dropWhile isspace s"
  define w where "w = dropWhile isspace (rev u)"
  have s: "strip s = rev w" by (simp add: strip_def u_def w_def)
  have "dropWhile isspace (rev w) = rev w"
  proof (cases "w = []")
    case True
    then show ?thesis by simp
  next
    case False
    then have "last w = last (rev u)" unfolding w_def by (rule last_dropWhile)
    moreover from False have "u \<noteq> []" by (auto simp: w_def)
    ultimately have "last w = hd u" by (simp add: last_rev)
    moreover have "\<not> isspace (hd u)"
      using \<open>u \<noteq> []\<close> unfolding u_def by (rule hd_dropWhile)
    ultimately have "\<not> isspace (hd (rev w))" using False by (simp add: hd_rev)
    then show ?thesis by (simp add: dropWhile_eq_self_iff)
  qed
  then have A: "dropWhile isspace (rev w) = rev w" .
  have B: "dropWhile isspace w = w" by (simp add: w_def)
  have "strip (rev w) = rev (dropWhile isspace (rev (dropWhile isspace (rev w))))"
    by (simp only: strip_def)
  also have "\<dots> = rev (dropWhile isspace (rev (rev w)))" by (simp only: A)
  also have "\<dots> = rev w" by (simp add: B)
  finally show ?thesis by (simp only: s)
qed

lemma strip_Nil [simp]: "strip [] = []"
  by (simp add: strip_def)

lemma required_sections_stripped:
  "s \<in> set REQUIRED_SECTIONS \<Longrightarrow> s \<noteq> [] \<and> strip s = s"
  by (auto simp: REQUIRED_SECTIONS_def ustr_def strip_def isspace_def)





lemma upper_not_space: "upper c \<Longrightarrow> \<not> isspace c"
  unfolding upper_def isspace_def by linarith


subsection \<open>The reader and the aggregation\<close>

lemma read_span_inv: "read_inv st \<Longrightarrow> read_inv (read_span st t)"
  by (cases st) (auto simp: read_inv_def tag_ok_def Let_def)

lemma foldl_read_inv: "read_inv st \<Longrightarrow> read_inv (foldl read_span st spans)"
  by (induction spans arbitrary: st) (simp_all add: read_span_inv)

lemma read_inv_init: "read_inv (None, [])"
  by (simp add: read_inv_def tag_ok_def)

lemma agg_step_untagged:
  "item_section it = None \<Longrightarrow> fst (agg_step (None, m) it) = None"
  by (simp add: agg_step_def Let_def)

lemma agg_step_untagged_unchanged:
  "item_section it = None \<Longrightarrow> agg_step (None, m) it = (None, m)"
  by (simp add: agg_step_def Let_def)

lemma foldl_agg_untagged:
  "\<forall>it \<in> set content. item_section it = None \<Longrightarrow>
   foldl agg_step (None, m) content = (None, m)"
  by (induction content) (simp_all add: agg_step_untagged_unchanged)

lemma lists_only_update:
  "lists_only m \<Longrightarrow> lists_only (AList.update k (PList vs) m)"
  by (induction m) (auto simp: lists_only_def)

lemma lists_only_map_of:
  "lists_only m \<Longrightarrow> map_of m k = Some v \<Longrightarrow> \<exists>vs. v = PList vs"
  unfolding lists_only_def by (fastforce dest: map_of_SomeD)

lemma agg_step_lists: "lists_only (snd st) \<Longrightarrow> lists_only (snd (agg_step st it))"
proof (cases st)
  case (Pair c m)
  assume l: "lists_only (snd st)"
  show ?thesis
  proof (cases "snd (agg_step st it) = m")
    case True
    with l Pair show ?thesis by simp
  next
    case False
    with Pair obtain k v where kv: "map_of m k = Some v"
      and upd: "snd (agg_step st it) = AList.update k
         (if truthy v then py_append v (PStr (strip (item_text it)))
          else PList [PStr (strip (item_text it))]) m"
      by (auto simp: agg_step_def Let_def split: option.splits if_splits)
    from lists_only_map_of [OF _ kv] l Pair obtain vs where "v = PList vs" by auto
    with upd l Pair show ?thesis
      by (auto simp: py_append_def intro: lists_only_update)
  qed
qed

lemma foldl_agg_lists:
  "lists_only (snd st) \<Longrightarrow> lists_only (snd (foldl agg_step st content))"
  by (induction content arbitrary: st) (simp_all add: agg_step_lists)

lemma lists_only_init: "lists_only (map (\<lambda>s. (s, PList [])) REQUIRED_SECTIONS)"
  by (simp add: lists_only_def)

lemma aggregate_lists: "lists_only (snd (aggregate content))"
  unfolding aggregate_def by (rule foldl_agg_lists) (simp add: lists_only_init)

lemma aggregate_untagged:
  "\<forall>it \<in> set content. item_section it = None \<Longrightarrow> fst (aggregate content) = None"
  by (simp add: aggregate_def foldl_agg_untagged)

lemma map_of_required:
  assumes "map fst m = REQUIRED_SECTIONS" and "s \<in> set REQUIRED_SECTIONS"
  shows "\<exists>v. map_of m s = Some v"
proof -
  from assms have "s \<in> fst ` set m" by (metis set_map)
  then show ?thesis by (cases "map_of m s") (auto simp: map_of_eq_None_iff)
qed






subsection \<open>The contact fields\<close>



lemma re_split_first:
  assumes "rmatch r (c # cs) = []"
  shows "\<exists>x xs. re_split r (c # cs) = (c # x) # xs"
proof (cases "re_search r cs")
  case None
  with assms show ?thesis by (subst re_split.simps) simp
next
  case (Some bma)
  then obtain b m a where "re_search r cs = Some (b, m, a)" by (cases bma) auto
  with assms show ?thesis by (subst re_split.simps) simp
qed





subsection \<open>Blank texts in the output\<close>









subsection \<open>Character classes\<close>

lemma isspace_cases:
  "isspace c \<Longrightarrow> c \<le> 32 \<or> c = 133 \<or> c = 160 \<or> c = 5760 \<or> (8192 \<le> c \<and> c \<le> 8202) \<or>
     c = 8232 \<or> c = 8233 \<or> c = 8239 \<or> c = 8287 \<or> c = 12288"
  unfolding isspace_def by linarith

lemma space_plain: "isspace c \<Longrightarrow> plain c"
  using isspace_cases [of c] unfolding plain_def dash_def bullet_def by linarith

lemma upper_plain: "upper c \<Longrightarrow> plain c"
  unfolding upper_def plain_def dash_def bullet_def by linarith

lemma lower_plain: "lower c \<Longrightarrow> plain c"
  unfolding lower_def plain_def dash_def bullet_def by linarith

lemma word_plain: "word U c \<Longrightarrow> plain c"
  unfolding word_def alpha_def upper_def lower_def digit_def plain_def dash_def bullet_def
  by linarith

lemma word_not_space: "word U c \<Longrightarrow> \<not> isspace c"
  using isspace_cases [of c]
  unfolding word_def alpha_def upper_def lower_def digit_def by linarith

lemma dash_not_bullet: "dash c \<Longrightarrow> c \<noteq> bullet"
  unfolding dash_def bullet_def by linarith

lemma space_not_dash: "isspace c \<Longrightarrow> \<not> dash c"
  using space_plain by (simp add: plain_def)

lemma space_not_bullet: "isspace c \<Longrightarrow> c \<noteq> bullet"
  using space_plain by (simp add: plain_def)

subsection \<open>The language of the header-line pattern\<close>

lemma star_all:
  "x \<in> star A \<Longrightarrow> \<forall>y \<in> A. \<forall>c \<in> set y. Q c \<Longrightarrow> \<forall>c \<in> set x. Q c"
  by (induction rule: star.induct) auto

lemma lang_SeqE:
  assumes "x \<in> lang (Seq a b)"
  obtains y z where "x = y @ z" "y \<in> lang a" "z \<in> lang b"
  using assms by auto

lemma lang_ClsE:
  assumes "x \<in> lang (Cls p)"
  obtains c where "x = [c]" "p c"
  using assms by auto

lemma lang_Star_Cls:
  assumes "x \<in> lang (Star (Cls p))" and "c \<in> set x"
  shows "p c"
proof -
  from assms(1) have "x \<in> star (lang (Cls p))" by simp
  moreover have "\<forall>y \<in> lang (Cls p). \<forall>c \<in> set y. p c" by auto
  ultimately have "\<forall>c \<in> set x. p c" by (rule star_all)
  with assms(2) show ?thesis by blast
qed

lemma lang_Plus_Cls:
  assumes "x \<in> lang (Plus (Cls p))"
  obtains c cs where "x = c # cs" "p c" "\<forall>d \<in> set cs. p d"
proof -
  from assms obtain y z where x: "x = y @ z" and y: "y \<in> lang (Cls p)"
    and z: "z \<in> lang (Star (Cls p))"
    unfolding Plus_def by (rule lang_SeqE)
  from y obtain c where c: "y = [c]" "p c" by (rule lang_ClsE)
  have "\<forall>d \<in> set z. p d" using z lang_Star_Cls by blast
  with x c that [of c z] show thesis by simp
qed

lemma lang_Plus_Cls_all: "x \<in> lang (Plus (Cls p)) \<Longrightarrow> c \<in> set x \<Longrightarrow> p c"
  by (erule lang_Plus_Cls) auto

lemma lang_Star_group:
  assumes "x \<in> lang (Star (Seq r1 (Plus (Cls q))))" and "c \<in> set x"
      and "\<And>y d. y \<in> lang r1 \<Longrightarrow> d \<in> set y \<Longrightarrow> Q d" and "\<And>d. q d \<Longrightarrow> Q d"
  shows "Q c"
proof -
  have "Q d" if "y \<in> lang (Seq r1 (Plus (Cls q)))" "d \<in> set y" for y d
  proof -
    from that(1) obtain u v where "y = u @ v" "u \<in> lang r1" "v \<in> lang (Plus (Cls q))"
      by (rule lang_SeqE)
    with that(2) assms(3,4) show ?thesis by (auto dest: lang_Plus_Cls_all)
  qed
  then have "\<forall>y \<in> lang (Seq r1 (Plus (Cls q))). \<forall>d \<in> set y. Q d" by blast
  moreover from assms(1) have "x \<in> star (lang (Seq r1 (Plus (Cls q))))" by simp
  ultimately have "\<forall>d \<in> set x. Q d" by (rule star_all [rotated])
  with assms(2) show ?thesis by blast
qed

lemma exp_header_shape:
  assumes "p \<in> lang (exp_header_pattern U)"
  shows "\<exists>T a1 d1 a2 P a3 d2 a4 w R.
     p = T @ [a1, d1, a2] @ P @ [a3, d2, a4] @ w # R \<and>
     T \<noteq> [] \<and> upper (hd T) \<and> (\<forall>c \<in> set T. plain c) \<and>
     isspace a1 \<and> dash d1 \<and> isspace a2 \<and>
     P \<noteq> [] \<and> word U (hd P) \<and> (\<forall>c \<in> set P. plain c) \<and>
     isspace a3 \<and> dash d2 \<and> isspace a4 \<and> word U w"
proof -
  from assms have "p \<in> lang (Seq (Cls upper) (Seq (Star (Cls lower))
     (Seq (Star (Seq (Plus (Cls isspace)) (Plus (Cls (word U)))))
     (Seq (Cls isspace) (Seq (Cls dash) (Seq (Cls isspace) (Seq (Plus (Cls (word U)))
     (Seq (Star (Seq (Cls isspace) (Plus (Cls (word U)))))
     (Seq (Cls isspace) (Seq (Cls dash) (Seq (Cls isspace) (Seq (Plus (Cls (word U)))
     (Star (Seq (Cls isspace) (Plus (Cls (word U)))))))))))))))))"
    by (simp only: exp_header_pattern_def seqs.simps)
  then obtain x1 x2 x3 x4 x5 x6 x7 x8 x9 x10 x11 x12 x13
    where p: "p = x1 @ x2 @ x3 @ x4 @ x5 @ x6 @ x7 @ x8 @ x9 @ x10 @ x11 @ x12 @ x13"
      and x1: "x1 \<in> lang (Cls upper)"
      and x2: "x2 \<in> lang (Star (Cls lower))"
      and x3: "x3 \<in> lang (Star (Seq (Plus (Cls isspace)) (Plus (Cls (word U)))))"
      and x4: "x4 \<in> lang (Cls isspace)"
      and x5: "x5 \<in> lang (Cls dash)"
      and x6: "x6 \<in> lang (Cls isspace)"
      and x7: "x7 \<in> lang (Plus (Cls (word U)))"
      and x8: "x8 \<in> lang (Star (Seq (Cls isspace) (Plus (Cls (word U)))))"
      and x9: "x9 \<in> lang (Cls isspace)"
      and x10: "x10 \<in> lang (Cls dash)"
      and x11: "x11 \<in> lang (Cls isspace)"
      and x12: "x12 \<in> lang (Plus (Cls (word U)))"
    by (elim lang_SeqE) blast
  from x1 obtain c0 where c0: "x1 = [c0]" "upper c0" by (rule lang_ClsE)
  from x4 obtain a1 where a1: "x4 = [a1]" "isspace a1" by (rule lang_ClsE)
  from x5 obtain d1 where d1: "x5 = [d1]" "dash d1" by (rule lang_ClsE)
  from x6 obtain a2 where a2: "x6 = [a2]" "isspace a2" by (rule lang_ClsE)
  from x9 obtain a3 where a3: "x9 = [a3]" "isspace a3" by (rule lang_ClsE)
  from x10 obtain d2 where d2: "x10 = [d2]" "dash d2" by (rule lang_ClsE)
  from x11 obtain a4 where a4: "x11 = [a4]" "isspace a4" by (rule lang_ClsE)
  from x7 obtain w1 ws1 where w1: "x7 = w1 # ws1" "word U w1" "\<forall>d \<in> set ws1. word U d"
    by (rule lang_Plus_Cls)
  from x12 obtain w ws where w: "x12 = w # ws" "word U w"
    by (rule lang_Plus_Cls)
  have t2: "plain c" if "c \<in> set x2" for c
    using lang_Star_Cls [OF x2 that] by (rule lower_plain)
  have t3: "plain c" if "c \<in> set x3" for c
    using x3 that
    by (rule lang_Star_group) (auto dest: lang_Plus_Cls_all intro: space_plain word_plain)
  have t8: "plain c" if "c \<in> set x8" for c
    using x8 that
    by (rule lang_Star_group) (auto elim!: lang_ClsE intro: space_plain word_plain)
  let ?T = "x1 @ x2 @ x3" and ?P = "x7 @ x8"
  have "p = ?T @ [a1, d1, a2] @ ?P @ [a3, d2, a4] @ w # (ws @ x13)"
    using p a1 d1 a2 a3 d2 a4 w by simp
  moreover have "?T \<noteq> []" "upper (hd ?T)" using c0 by simp_all
  moreover have "\<forall>c \<in> set ?T. plain c" using c0 t2 t3 by (auto intro: upper_plain)
  moreover have "?P \<noteq> []" "word U (hd ?P)" using w1 by simp_all
  moreover have "\<forall>c \<in> set ?P. plain c" using w1 t8 by (auto intro: word_plain)
  ultimately show ?thesis using a1 d1 a2 a3 d2 a4 w by blast
qed

subsection \<open>Removing the bullets\<close>

lemma bullet_pattern_no_match: "c \<noteq> bullet \<Longrightarrow> rmatch bullet_pattern (c # s) = []"
  by (simp add: bullet_pattern_def lit_def)

lemma re_sub_skip:
  assumes "rmatch r (c # s) = []"
  shows "re_sub r [] (c # s) = c # re_sub r [] s"
proof (cases "re_search r s")
  case None
  with assms show ?thesis
    by (subst re_sub.simps, subst (2) re_sub.simps) simp
next
  case (Some bma)
  then obtain b m a where bma: "re_search r s = Some (b, m, a)" by (cases bma) auto
  from re_search_sound [OF bma] have s: "s = b @ m @ a" by simp
  have l: "re_sub r [] (c # s) = c # b @ re_sub r [] a"
    using assms bma s by (subst re_sub.simps) simp
  show ?thesis
  proof (cases "length a < length s")
    case True
    then have "re_sub r [] s = b @ re_sub r [] a"
      using bma by (subst re_sub.simps) simp
    with l show ?thesis by simp
  next
    case False
    with s have "b = []" "a = s" by auto
    with l show ?thesis by simp
  qed
qed

lemma re_sub_bullet_free:
  "\<forall>c \<in> set x. c \<noteq> bullet \<Longrightarrow>
   re_sub bullet_pattern [] (x @ s) = x @ re_sub bullet_pattern [] s"
  by (induction x) (simp_all add: re_sub_skip bullet_pattern_no_match)

subsection \<open>The strip of a field\<close>

lemma strip_eq_Nil: "strip s = [] \<longleftrightarrow> blank s"
proof
  assume "strip s = []"
  then have "\<forall>c \<in> set (dropWhile isspace s). isspace c"
    by (simp add: strip_def dropWhile_eq_Nil_conv)
  moreover have "dropWhile isspace s = [] \<or> \<not> isspace (hd (dropWhile isspace s))"
    using hd_dropWhile [of isspace s] by blast
  ultimately have "dropWhile isspace s = []"
    by (cases "dropWhile isspace s") auto
  then show "blank s" by (simp add: blank_def dropWhile_eq_Nil_conv list_all_iff)
next
  assume "blank s"
  then have e: "dropWhile isspace s = []"
    by (simp add: blank_def dropWhile_eq_Nil_conv list_all_iff)
  show "strip s = []" by (simp only: strip_def e rev.simps dropWhile.simps)
qed

lemma strip_keep:
  assumes "x \<noteq> []" and "\<not> isspace (hd x)" and "\<not> isspace (last x)"
  shows "\<exists>s'. strip (x @ s) = x @ s'"
proof -
  from assms(1,2) have d1: "dropWhile isspace (x @ s) = x @ s"
    by (cases x) simp_all
  from assms(1,3) have d2: "dropWhile isspace (rev x) = rev x"
    by (simp add: dropWhile_eq_self_iff hd_rev)
  have "dropWhile isspace (rev s @ rev x) =
        (if \<forall>c \<in> set (rev s). isspace c then [] else dropWhile isspace (rev s)) @ rev x"
    by (simp add: dropWhile_append d2)
  then have "strip (x @ s) =
        x @ rev (if \<forall>c \<in> set (rev s). isspace c then [] else dropWhile isspace (rev s))"
    by (simp add: strip_def d1)
  then show ?thesis by blast
qed

subsection \<open>Splitting on the separator\<close>

lemma exp_split_match:
  "rmatch exp_split_pattern s =
     (case s of
        x # y # z # rest \<Rightarrow> if isspace x \<and> dash y \<and> isspace z then [rest] else []
      | _ \<Rightarrow> [])"
  by (simp add: exp_split_pattern_def split: list.splits)

lemma exp_split_no_match_space: "\<not> isspace c \<Longrightarrow> rmatch exp_split_pattern (c # s) = []"
  by (simp add: exp_split_match split: list.splits)

lemma exp_split_no_match_dash:
  "\<not> dash c' \<Longrightarrow> rmatch exp_split_pattern (c # c' # s) = []"
  by (simp add: exp_split_match split: list.splits)

lemma search_after_field:
  assumes "\<forall>c \<in> set f. \<not> dash c" and "isspace a" and "dash d" and "isspace a'"
  shows "re_search exp_split_pattern (f @ a # d # a' # z) = Some (f, [a, d, a'], z)"
  using assms(1)
proof (induction f)
  case Nil
  from assms(2-4) show ?case by (simp add: exp_split_match)
next
  case (Cons c f)
  have "rmatch exp_split_pattern (c # f @ a # d # a' # z) = []"
  proof (cases f)
    case Nil
    with assms(2) show ?thesis by (simp add: exp_split_no_match_dash space_not_dash)
  next
    case (Cons c' f')
    with Cons.prems show ?thesis by (simp add: exp_split_no_match_dash)
  qed
  with Cons show ?case by simp
qed

lemma split_after_field:
  assumes "\<forall>c \<in> set f. \<not> dash c" and "isspace a" and "dash d" and "isspace a'"
  shows "re_split exp_split_pattern (f @ a # d # a' # z) = f # re_split exp_split_pattern z"
  by (subst re_split.simps) (simp add: search_after_field [OF assms])

subsection \<open>The fields of a header line\<close>

lemma strip_field: "x \<noteq> [] \<Longrightarrow> \<not> isspace (hd x) \<Longrightarrow> strip x \<noteq> []"
  by (cases x) (auto simp: strip_eq_Nil blank_def)

lemma header_line_fields:
  assumes "re_match (exp_header_pattern U) line"
  shows "\<exists>s0 s1 s2 rest. header_fields line = s0 # s1 # s2 # rest"
proof -
  from assms obtain t where "t \<in> set (rmatch (exp_header_pattern U) line)"
    by (cases "rmatch (exp_header_pattern U) line") (auto simp: re_match_def)
  from rmatch_sound [OF this] obtain p
    where p: "p \<in> lang (exp_header_pattern U)" and line: "line = p @ t" by blast
  from exp_header_shape [OF p] obtain T a1 d1 a2 P a3 d2 a4 w R
    where pp: "p = T @ [a1, d1, a2] @ P @ [a3, d2, a4] @ w # R"
      and T: "T \<noteq> []" "upper (hd T)" "\<forall>c \<in> set T. plain c"
      and s1: "isspace a1" "dash d1" "isspace a2"
      and P: "P \<noteq> []" "word U (hd P)" "\<forall>c \<in> set P. plain c"
      and s2: "isspace a3" "dash d2" "isspace a4"
      and w: "word U w"
    by blast
  define X where "X = T @ [a1, d1, a2] @ P @ [a3, d2, a4] @ [w]"
  have lx: "line = X @ (R @ t)" by (simp add: line pp X_def)
  have nb: "\<forall>c \<in> set X. c \<noteq> bullet"
    using T(3) P(3) s1 s2 w
    by (auto simp: X_def dest: space_not_bullet dash_not_bullet word_plain simp: plain_def)
  have xne: "X \<noteq> []" by (simp add: X_def)
  have hx: "\<not> isspace (hd X)" using T by (simp add: X_def upper_not_space)
  have lastx: "\<not> isspace (last X)" using w by (simp add: X_def word_not_space)
  have "re_sub bullet_pattern [] line = X @ re_sub bullet_pattern [] (R @ t)"
    unfolding lx using nb by (rule re_sub_bullet_free)
  moreover obtain s' where "strip (X @ re_sub bullet_pattern [] (R @ t)) = X @ s'"
    using strip_keep [OF xne hx lastx] by blast
  ultimately have st: "strip (re_sub bullet_pattern [] line) =
      T @ a1 # d1 # a2 # (P @ a3 # d2 # a4 # (w # s'))"
    by (simp add: X_def)
  have ndT: "\<forall>c \<in> set T. \<not> dash c" using T(3) by (simp add: plain_def)
  have ndP: "\<forall>c \<in> set P. \<not> dash c" using P(3) by (simp add: plain_def)
  have "rmatch exp_split_pattern (w # s') = []"
    using w by (simp add: exp_split_no_match_space word_not_space)
  from re_split_first [OF this] obtain x xs
    where r3: "re_split exp_split_pattern (w # s') = (w # x) # xs" by blast
  have parts: "re_split exp_split_pattern (strip (re_sub bullet_pattern [] line)) =
      T # P # (w # x) # xs"
    unfolding st
    by (simp add: split_after_field [OF ndT s1] split_after_field [OF ndP s2] r3)
  have "strip T \<noteq> []" using T by (simp add: strip_field upper_not_space)
  moreover have "strip P \<noteq> []" using P w by (simp add: strip_field word_not_space)
  moreover have "strip (w # x) \<noteq> []" using w by (simp add: strip_field word_not_space)
  ultimately show ?thesis
    by (simp add: header_fields_def parts)
qed

subsection \<open>The segmenter returns\<close>

text \<open>
  A line that matches the header-line pattern has three fields, so the index error of
  \<^verbatim>\<open>_experienceHeaderHelper\<close> is out of reach of the segmenter.
\<close>

lemma experienceHeaderHelper_IndexError:
  "length (header_fields line) < 3 \<Longrightarrow> experienceHeaderHelper line = Inl IndexError"
  by (auto simp: experienceHeaderHelper_def split: list.splits)

lemma header_line_header:
  assumes "re_match (exp_header_pattern U) line"
  shows "\<exists>t pos ind.
     experienceHeaderHelper line =
       Inr (PDict [(ustr ''project_title'', PStr t), (ustr ''project_position'', PStr pos),
                   (ustr ''project_industry'', PStr ind)]) \<and>
     t \<noteq> [] \<and> pos \<noteq> [] \<and> ind \<noteq> [] \<and> 3 \<le> length (header_fields line)"
proof -
  from header_line_fields [OF assms] obtain s0 s1 s2 rest
    where hf: "header_fields line = s0 # s1 # s2 # rest" by blast
  have "s0 \<noteq> []" "s1 \<noteq> []" "s2 \<noteq> []"
    using header_fields_nonempty [of _ line] hf by simp_all
  with hf show ?thesis by (simp add: experienceHeaderHelper_def)
qed

lemma header_line_helper:
  assumes "re_match (exp_header_pattern U) line"
  shows "\<exists>h. experienceHeaderHelper line = Inr h"
proof -
  from header_line_fields [OF assms] obtain s0 s1 s2 rest
    where "header_fields line = s0 # s1 # s2 # rest" by blast
  then show ?thesis by (simp add: experienceHeaderHelper_def)
qed

lemma exp_step_total: "\<exists>st'. exp_step U st line = Inr st'"
proof -
  obtain info details contents where st: "st = (info, details, contents)"
    by (rule prod_cases3)
  show ?thesis
  proof (cases "re_match (exp_header_pattern U) line")
    case True
    from header_line_helper [OF this] obtain h where "experienceHeaderHelper line = Inr h"
      by blast
    with True show ?thesis by (simp add: exp_step_def st)
  next
    case False
    then show ?thesis by (simp add: exp_step_def st)
  qed
qed

lemma exp_loop_total: "\<exists>st'. exp_loop U st lines = Inr st'"
proof (induction lines arbitrary: st)
  case Nil
  have "exp_loop U st [] = Inr st" by simp
  then show ?case by (rule exI)
next
  case (Cons line lines)
  from exp_step_total obtain st1 where st1: "exp_step U st line = Inr st1" by blast
  from Cons.IH obtain st2 where "exp_loop U st1 lines = Inr st2" by blast
  with st1 have "exp_loop U st (line # lines) = Inr st2" by simp
  then show ?case by (rule exI)
qed

lemma experience_section_helper_total:
  "\<exists>projects. experience_section_helper U lines = Inr projects"
proof -
  from exp_loop_total obtain st where "exp_loop U ([], [], None) lines = Inr st" by blast
  moreover obtain info details contents where "st = (info, details, contents)"
    by (rule prod_cases3)
  ultimately show ?thesis by (simp add: experience_section_helper_def)
qed

text \<open>The example of the pairing rule: two header lines, each with one detail line.\<close>

lemma experience_section_helper_example:
  "experience_section_helper U
     [ustr ''Alpha - Lead - Finance'', ustr ''did X'',
      ustr ''Beta - Analyst - Retail'', ustr ''did Y'']
   = Inr [PDict [(ustr ''project_header'',
                  PDict [(ustr ''project_title'', PStr (ustr ''Alpha'')),
                         (ustr ''project_position'', PStr (ustr ''Lead'')),
                         (ustr ''project_industry'', PStr (ustr ''Finance''))]),
                 (ustr ''project_details'', PList [PStr (ustr ''did X'')])],
          PDict [(ustr ''project_header'',
                  PDict [(ustr ''project_title'', PStr (ustr ''Beta'')),
                         (ustr ''project_position'', PStr (ustr ''Analyst'')),
                         (ustr ''project_industry'', PStr (ustr ''Retail''))]),
                 (ustr ''project_details'', PList [PStr (ustr ''did Y'')])]]"
  by (simp add: eval_defs)

subsection \<open>When the parser returns\<close>

text \<open>\<^verbatim>\<open>_parse_profile\<close> raises only where the contact extractor does.\<close>

lemma process_section_total:
  "s \<in> set (map fst m) \<Longrightarrow> \<exists>m'. process_section U (Inr m) s = Inr m'"
proof -
  assume "s \<in> set (map fst m)"
  then obtain v where v: "map_of m s = Some v"
    by (cases "map_of m s") (auto simp: map_of_eq_None_iff)
  obtain ps where "experience_section_helper U (py_strs v) = Inr ps"
    using experience_section_helper_total by blast
  with v show ?thesis by (simp add: process_section_def)
qed

lemma foldl_process_total:
  "set ss \<subseteq> set (map fst m) \<Longrightarrow> \<exists>m'. foldl (process_section U) (Inr m) ss = Inr m'"
proof (induction ss arbitrary: m)
  case Nil
  then show ?case by simp
next
  case (Cons s ss)
  then have "s \<in> set (map fst m)" by simp
  from process_section_total [OF this] obtain m1
    where m1: "process_section U (Inr m) s = Inr m1" by blast
  from process_section_keys [OF m1] Cons.prems have "set ss \<subseteq> set (map fst m1)" by simp
  from Cons.IH [OF this] m1 show ?case by simp
qed

lemma parse_profile_returns_iff:
  "(\<exists>doc. parse_profile U content = Inr doc) \<longleftrightarrow>
   (\<exists>ci content'. extract_contact_information content = Inr (ci, content'))"
proof
  assume "\<exists>doc. parse_profile U content = Inr doc"
  then show "\<exists>ci content'. extract_contact_information content = Inr (ci, content')"
    by (auto simp: parse_profile_def split: sum.splits)
next
  assume "\<exists>ci content'. extract_contact_information content = Inr (ci, content')"
  then obtain ci content'
    where ex: "extract_contact_information content = Inr (ci, content')" by blast
  define m4 where "m4 = AList.update (ustr ''Job Title'') (py_opt (job_title ci))
     (AList.update (ustr ''Email'') (py_opt (email ci))
       (AList.update (ustr ''Name'') (py_opt (name ci)) (snd (aggregate content'))))"
  have "map fst m4 = REQUIRED_SECTIONS"
    unfolding m4_def by (simp add: update_keys aggregate_keys) (simp add: REQUIRED_SECTIONS_def)
  then have "set REQUIRED_SECTIONS \<subseteq> set (map fst m4)" by simp
  from foldl_process_total [OF this] obtain m5
    where "foldl (process_section U) (Inr m4) REQUIRED_SECTIONS = Inr m5" by blast
  with ex show "\<exists>doc. parse_profile U content = Inr doc"
    by (simp add: parse_profile_def Let_def m4_def)
qed

text \<open>
  On a stream with no two adjacent contact fragments the extractor removes exactly the
  contact fragments, and the name is the first part of the last header fragment.
\<close>

lemma extract_clean:
  assumes "no_adjacent_contacts content"
      and "extract_contact_information content = Inr (ci, content')"
  shows "content' = filter (\<lambda>it. \<not> is_contact it) content \<and>
         header_texts content \<noteq> [] \<and>
         (\<exists>rest. re_split header_split_pattern (last (header_texts content))
                   = the (name ci) # rest)"
proof -
  have sc: "scan_contacts (length ([]::item list)) ([] @ content) None None =
     (last_or None (header_texts content), last_or None (email_matches content),
      [] @ filter (\<lambda>x. \<not> is_contact x) content)"
    using assms(1) by (intro scan_contacts_clean) simp_all
  then have sc': "scan_contacts 0 content None None =
     (last_or None (header_texts content), last_or None (email_matches content),
      filter (\<lambda>x. \<not> is_contact x) content)" by simp
  from assms(2) have c: "content' = filter (\<lambda>it. \<not> is_contact it) content"
    using extract_scan [OF assms(2)] sc' by simp
  from assms(2) have ht: "header_texts content \<noteq> []"
    unfolding extract_contact_information_def sc'
    by (auto simp: last_or_def split: if_splits)
  from assms(2) ht have "\<exists>rest. re_split header_split_pattern (last (header_texts content))
                   = the (name ci) # rest"
    unfolding extract_contact_information_def sc'
    by (auto simp: last_or_def Let_def split: if_splits list.splits)
  with c ht show ?thesis by simp
qed

subsection \<open>The step of the segmenter\<close>






subsection \<open>One step of the aggregation, on any fragment\<close>

lemma agg_step_cursor:
  "fst (agg_step (ac, m) it) =
     (case item_section it of None \<Rightarrow> ac
      | Some h \<Rightarrow> if h = [] then ac else Some (strip h))"
  by (cases "item_section it") (auto simp: agg_step_def Let_def split: option.splits)

lemma map_of_unrecognized:
  "map fst m = REQUIRED_SECTIONS \<Longrightarrow> s \<notin> set REQUIRED_SECTIONS \<Longrightarrow> map_of m s = None"
  by (metis map_of_eq_None_iff set_map)

lemma agg_step_map:
  assumes keys: "map fst m = REQUIRED_SECTIONS" and lists: "lists_only m"
  shows "if fst (agg_step (ac, m) it) \<in> Some ` set REQUIRED_SECTIONS \<and>
            strip (item_text it) \<noteq> []
         then \<exists>vs. map_of m (the (fst (agg_step (ac, m) it))) = Some (PList vs) \<and>
                snd (agg_step (ac, m) it) =
                  AList.update (the (fst (agg_step (ac, m) it)))
                    (PList (vs @ [PStr (strip (item_text it))])) m
         else snd (agg_step (ac, m) it) = m"
proof -
  define cur where "cur = (if truthy (py_opt (item_section it))
     then Some (strip (the (item_section it))) else ac)"
  have f: "fst (agg_step (ac, m) it) = cur"
    by (auto simp: agg_step_def Let_def cur_def split: option.splits)
  show ?thesis
  proof (cases "cur \<in> Some ` set REQUIRED_SECTIONS \<and> strip (item_text it) \<noteq> []")
    case True
    then obtain s where s: "cur = Some s" "s \<in> set REQUIRED_SECTIONS"
      and t: "strip (item_text it) \<noteq> []" by auto
    from s have sne: "s \<noteq> []" using required_sections_stripped by blast
    from map_of_required [OF keys s(2)] obtain v where v: "map_of m s = Some v" by blast
    from lists_only_map_of [OF lists v] obtain vs where vs: "v = PList vs" by blast
    have "snd (agg_step (ac, m) it) =
        AList.update s (PList (vs @ [PStr (strip (item_text it))])) m"
      using s sne t v vs cur_def
      by (cases vs) (auto simp: agg_step_def Let_def py_append_def)
    with True f s v vs show ?thesis by simp
  next
    case False
    have c: "\<not> (fst (agg_step (ac, m) it) \<in> Some ` set REQUIRED_SECTIONS \<and>
        strip (item_text it) \<noteq> [])"
      using False f by simp
    have sm: "snd (agg_step (ac, m) it) = m"
    proof (cases "truthy (py_opt cur) \<and> strip (item_text it) \<noteq> []")
      case True
      then obtain x where x: "cur = Some x" by (cases cur) auto
      with True False have "x \<notin> set REQUIRED_SECTIONS" by auto
      from map_of_unrecognized [OF keys this] x True cur_def show ?thesis
        by (auto simp: agg_step_def Let_def)
    next
      case False
      with cur_def show ?thesis by (auto simp: agg_step_def Let_def)
    qed
    show ?thesis unfolding if_not_P [OF c] by (rule sm)
  qed
qed

subsection \<open>The job title\<close>







section \<open>The claims\<close>

text \<open>
  C1 (the contact extractor removes the header fragment and the email-bearing fragment,
  so that neither appears in a section's content). The loop removes from the list it
  iterates, so the fragment that follows a removed one is never visited: for a header
  fragment directly followed by the email-bearing fragment, both tagged Executive
  Summary, the email stays in the stream, is put into the content of Executive Summary,
  and the Email section is missing from the document.
\<close>

theorem C1_email_after_header_not_removed:
  \<open>parse_profile U
     [\<lparr>item_section = Some (ustr ''Executive Summary''),
       item_text = ustr ''A. Smith - "Senior Consultant"''\<rparr>,
      \<lparr>item_section = Some (ustr ''Executive Summary''),
       item_text = ustr ''a.smith@example.com''\<rparr>]
   = Inr \<lparr>sharePointRef = PNone, sections =
       [\<lparr>section_name = ustr ''Name'', section_content = PStr (ustr ''A. Smith'')\<rparr>,
        \<lparr>section_name = ustr ''Job Title'',
         section_content = PStr (ustr ''Senior Consultant'')\<rparr>,
        \<lparr>section_name = ustr ''Executive Summary'',
         section_content = PList [PStr (ustr ''a.smith@example.com'')]\<rparr>]\<rparr>\<close>
  by (simp add: eval_defs)

text \<open>
  C2 (the Nth header line receives the detail lines between it and the next header
  line). A header line with no detail line before the next header line leaves no entry
  in \<^verbatim>\<open>project_details\<close>, so the later buffers move up by one and \<^verbatim>\<open>zip\<close> drops the
  last header: here Alpha receives Beta's line and Beta is lost.
\<close>

theorem C2_header_without_details_shifts_pairing:
  "experience_section_helper U
     [ustr ''Alpha - Lead - Finance'', ustr ''Beta - Analyst - Retail'', ustr ''did Y'']
   = Inr [PDict [(ustr ''project_header'',
                  PDict [(ustr ''project_title'', PStr (ustr ''Alpha'')),
                         (ustr ''project_position'', PStr (ustr ''Lead'')),
                         (ustr ''project_industry'', PStr (ustr ''Finance''))]),
                 (ustr ''project_details'', PList [PStr (ustr ''did Y'')])]]"
  by (simp add: eval_defs)

text \<open>
  C3 (without a header fragment, contact extraction returns with null name and job
  title). Without a header fragment \<^verbatim>\<open>header\<close> stays \<^verbatim>\<open>None\<close>, and line 130 passes
  \<^verbatim>\<open>None\<close> to \<^verbatim>\<open>re.sub\<close>: on every such input the extractor raises \<^verbatim>\<open>TypeError\<close>.
\<close>

theorem C3_no_header_raises:
  assumes "\<forall>it \<in> set content. \<not> re_match header_pattern (item_text it)"
  shows "extract_contact_information content = Inl TypeError"
proof -
  have "fst (scan_contacts 0 content None None) = None"
    using assms by (simp add: scan_contacts_no_header)
  then show ?thesis
    by (auto simp: extract_contact_information_def split: prod.splits)
qed

theorem C3_no_header_raises_witness:
  "\<not> re_match header_pattern (ustr ''hello'') \<and>
   extract_contact_information [\<lparr>item_section = None, item_text = ustr ''hello''\<rparr>]
     = Inl TypeError"
proof -
  have h: "\<forall>it \<in> set [\<lparr>item_section = None, item_text = ustr ''hello''\<rparr>].
      \<not> re_match header_pattern (item_text it)"
    by (simp add: rx_defs cls_defs ustr_def)
  from C3_no_header_raises [OF h] h show ?thesis by simp
qed

text \<open>
  C4 (a project record is a flat record with the fields \<^verbatim>\<open>project_title\<close>,
  \<^verbatim>\<open>project_position\<close>, \<^verbatim>\<open>project_industry\<close> and \<^verbatim>\<open>project_details\<close>). The code
  builds \<^verbatim>\<open>{"project_header": info, "project_details": details}\<close>: the three header fields
  are nested under \<^verbatim>\<open>project_header\<close>, as the record of one header line and one detail
  line shows.
\<close>

theorem C4_record_is_nested:
  "experience_section_helper ascii_only [ustr ''Alpha - Lead - Finance'', ustr ''did X'']
   = Inr [PDict [(ustr ''project_header'',
                  PDict [(ustr ''project_title'', PStr (ustr ''Alpha'')),
                         (ustr ''project_position'', PStr (ustr ''Lead'')),
                         (ustr ''project_industry'', PStr (ustr ''Finance''))]),
                 (ustr ''project_details'', PList [PStr (ustr ''did X'')])]]"
  by (simp add: eval_defs)

text \<open>
  C4 as amended: every record the segmenter returns has exactly the two fields
  \<^verbatim>\<open>project_header\<close> and \<^verbatim>\<open>project_details\<close>; the header is a record of exactly
  \<^verbatim>\<open>project_title\<close>, \<^verbatim>\<open>project_position\<close> and \<^verbatim>\<open>project_industry\<close>, each a non-empty
  string; the details are a list of strings, or \<^verbatim>\<open>None\<close>, the latter only when every
  line of the section is a header line.
\<close>

theorem C4_project_record_shape:
  assumes "experience_section_helper U lines = Inr projects" and "p \<in> set projects"
  shows "\<exists>t pos ind d.
     p = PDict [(ustr ''project_header'',
                 PDict [(ustr ''project_title'', PStr t),
                        (ustr ''project_position'', PStr pos),
                        (ustr ''project_industry'', PStr ind)]),
                (ustr ''project_details'', d)] \<and>
     t \<noteq> [] \<and> pos \<noteq> [] \<and> ind \<noteq> [] \<and>
     ((d = PNone \<and> list_all (re_match (exp_header_pattern U)) lines) \<or>
      (\<exists>ls. d = PList (map PStr ls)))"
proof -
  from experience_section_helper_shape [OF assms] obtain h d
    where p: "p = PDict [(ustr ''project_header'', h), (ustr ''project_details'', d)]"
      and hok: "header_ok h"
      and d: "(d = PNone \<and> (\<forall>l \<in> set lines. re_match (exp_header_pattern U) l)) \<or>
              (\<exists>ls. d = PList (map PStr ls) \<and> set ls \<subseteq> set lines)"
    by blast
  from hok obtain line where "experienceHeaderHelper line = Inr h"
    by (auto simp: header_ok_def)
  from experienceHeaderHelper_Inr [OF this] obtain s0 s1 s2 rest
    where hf: "header_fields line = s0 # s1 # s2 # rest"
      and h: "h = PDict [(ustr ''project_title'', PStr s0), (ustr ''project_position'', PStr s1),
                (ustr ''project_industry'', PStr s2)]" by blast
  have "s0 \<noteq> []" "s1 \<noteq> []" "s2 \<noteq> []"
    using header_fields_nonempty [of _ line] hf by simp_all
  with p h d show ?thesis by (auto simp: list_all_iff)
qed

theorem C4_project_record_shape_witness:
  "experience_section_helper ascii_only [ustr ''Alpha - Lead - Finance'', ustr ''did X'']
     = Inr [PDict [(ustr ''project_header'',
                    PDict [(ustr ''project_title'', PStr (ustr ''Alpha'')),
                           (ustr ''project_position'', PStr (ustr ''Lead'')),
                           (ustr ''project_industry'', PStr (ustr ''Finance''))]),
                   (ustr ''project_details'', PList [PStr (ustr ''did X'')])]] \<and>
   (\<exists>t pos ind d.
      PDict [(ustr ''project_header'',
              PDict [(ustr ''project_title'', PStr (ustr ''Alpha'')),
                     (ustr ''project_position'', PStr (ustr ''Lead'')),
                     (ustr ''project_industry'', PStr (ustr ''Finance''))]),
             (ustr ''project_details'', PList [PStr (ustr ''did X'')])]
      = PDict [(ustr ''project_header'',
                PDict [(ustr ''project_title'', PStr t),
                       (ustr ''project_position'', PStr pos),
                       (ustr ''project_industry'', PStr ind)]),
               (ustr ''project_details'', d)] \<and>
      t \<noteq> [] \<and> pos \<noteq> [] \<and> ind \<noteq> [] \<and>
      ((d = PNone \<and> list_all (re_match (exp_header_pattern ascii_only))
                        [ustr ''Alpha - Lead - Finance'', ustr ''did X'']) \<or>
       (\<exists>ls. d = PList (map PStr ls))))"
proof -
  have run: "experience_section_helper ascii_only
      [ustr ''Alpha - Lead - Finance'', ustr ''did X'']
     = Inr [PDict [(ustr ''project_header'',
                    PDict [(ustr ''project_title'', PStr (ustr ''Alpha'')),
                           (ustr ''project_position'', PStr (ustr ''Lead'')),
                           (ustr ''project_industry'', PStr (ustr ''Finance''))]),
                   (ustr ''project_details'', PList [PStr (ustr ''did X'')])]]"
    by (simp add: eval_defs)
  have mem: "PDict [(ustr ''project_header'',
                    PDict [(ustr ''project_title'', PStr (ustr ''Alpha'')),
                           (ustr ''project_position'', PStr (ustr ''Lead'')),
                           (ustr ''project_industry'', PStr (ustr ''Finance''))]),
                   (ustr ''project_details'', PList [PStr (ustr ''did X'')])]
     \<in> set [PDict [(ustr ''project_header'',
                    PDict [(ustr ''project_title'', PStr (ustr ''Alpha'')),
                           (ustr ''project_position'', PStr (ustr ''Lead'')),
                           (ustr ''project_industry'', PStr (ustr ''Finance''))]),
                   (ustr ''project_details'', PList [PStr (ustr ''did X'')])]]"
    by simp
  show ?thesis
    using run C4_project_record_shape [OF run mem] by (rule conjI)
qed

text \<open>
  C5 (of two or more email-bearing fragments the first one's match is the email). The
  scan has no guard on a match already found: each email-bearing fragment it visits
  overwrites \<^verbatim>\<open>email\<close>. With a header fragment and two email-bearing fragments, each
  after an ordinary fragment, the email is the match of the second one.
\<close>

theorem C5_second_email_overwrites_first:
  \<open>extract_contact_information
     [\<lparr>item_section = None, item_text = ustr ''A. Smith - "Senior Consultant"''\<rparr>,
      \<lparr>item_section = None, item_text = ustr ''x''\<rparr>,
      \<lparr>item_section = None, item_text = ustr ''first@example.com''\<rparr>,
      \<lparr>item_section = None, item_text = ustr ''y''\<rparr>,
      \<lparr>item_section = None, item_text = ustr ''second@example.com''\<rparr>]
   = Inr (\<lparr>name = Some (ustr ''A. Smith''), email = Some (ustr ''second@example.com''),
          job_title = Some (ustr ''Senior Consultant'')\<rparr>,
         [\<lparr>item_section = None, item_text = ustr ''x''\<rparr>,
          \<lparr>item_section = None, item_text = ustr ''y''\<rparr>])\<close>
  by (simp add: eval_defs)

text \<open>
  C5 as amended: on a stream in which no contact fragment (one that matches the header
  pattern or holds an email match) directly follows another, whenever the extractor
  returns, the email is the match of the last fragment that holds one and is no header
  fragment, and null if there is none.
\<close>

theorem C5_last_email_match_is_used:
  assumes "no_adjacent_contacts content"
      and "extract_contact_information content = Inr (ci, content')"
  shows "email ci = (if email_matches content = [] then None
                     else Some (last (email_matches content)))"
proof -
  have "scan_contacts (length ([]::item list)) ([] @ content) None None =
     (last_or None (header_texts content), last_or None (email_matches content),
      [] @ filter (\<lambda>x. \<not> is_contact x) content)"
    using assms(1) by (intro scan_contacts_clean) simp_all
  then have sc: "fst (snd (scan_contacts 0 content None None)) =
      last_or None (email_matches content)" by simp
  show ?thesis
  proof (cases "email_matches content = []")
    case True
    with extract_scan [OF assms(2)] sc show ?thesis by (simp add: last_or_def)
  next
    case False
    then have "last (email_matches content) \<noteq> []"
      using email_matches_nonempty last_in_set by blast
    with extract_scan [OF assms(2)] sc False show ?thesis by (simp add: last_or_def)
  qed
qed

theorem C5_last_email_match_is_used_witness:
  \<open>no_adjacent_contacts
     [\<lparr>item_section = None, item_text = ustr ''A. Smith - "Senior Consultant"''\<rparr>,
      \<lparr>item_section = None, item_text = ustr ''x''\<rparr>,
      \<lparr>item_section = None, item_text = ustr ''first@example.com''\<rparr>,
      \<lparr>item_section = None, item_text = ustr ''y''\<rparr>,
      \<lparr>item_section = None, item_text = ustr ''second@example.com''\<rparr>] \<and>
   email_matches
     [\<lparr>item_section = None, item_text = ustr ''A. Smith - "Senior Consultant"''\<rparr>,
      \<lparr>item_section = None, item_text = ustr ''x''\<rparr>,
      \<lparr>item_section = None, item_text = ustr ''first@example.com''\<rparr>,
      \<lparr>item_section = None, item_text = ustr ''y''\<rparr>,
      \<lparr>item_section = None, item_text = ustr ''second@example.com''\<rparr>]
     = [ustr ''first@example.com'', ustr ''second@example.com''] \<and>
   email \<lparr>name = Some (ustr ''A. Smith''), email = Some (ustr ''second@example.com''),
          job_title = Some (ustr ''Senior Consultant'')\<rparr>
     = Some (last [ustr ''first@example.com'', ustr ''second@example.com''])\<close>
proof -
  let ?c = \<open>[\<lparr>item_section = None, item_text = ustr ''A. Smith - "Senior Consultant"''\<rparr>,
      \<lparr>item_section = None, item_text = ustr ''x''\<rparr>,
      \<lparr>item_section = None, item_text = ustr ''first@example.com''\<rparr>,
      \<lparr>item_section = None, item_text = ustr ''y''\<rparr>,
      \<lparr>item_section = None, item_text = ustr ''second@example.com''\<rparr>]\<close>
  have na: "no_adjacent_contacts ?c"
    by (simp add: is_contact_def eval_defs)
  have em: "email_matches ?c = [ustr ''first@example.com'', ustr ''second@example.com'']"
    by (simp add: email_matches_def email_match_of_def eval_defs)
  have run: "extract_contact_information ?c
     = Inr (\<lparr>name = Some (ustr ''A. Smith''), email = Some (ustr ''second@example.com''),
            job_title = Some (ustr ''Senior Consultant'')\<rparr>,
           [\<lparr>item_section = None, item_text = ustr ''x''\<rparr>,
            \<lparr>item_section = None, item_text = ustr ''y''\<rparr>])"
    by (simp add: eval_defs)
  from C5_last_email_match_is_used [OF na run] na em show ?thesis
    by (simp del: last.simps)
qed

text \<open>
  C6 (a bullet-style section yields one entry per retained value; a longform section,
  Name, Email and Job Title included, yields one entry whose content is the list of its
  retained values). The contents of Name, Email and Job Title are the strings of the
  contact information themselves, not lists: in the document below Name and Job Title
  hold a string, Executive Summary the list of its two lines, and Technical Expertise
  gives one entry per line.
\<close>

theorem C6_contact_sections_hold_strings:
  \<open>parse_profile ascii_only
     [\<lparr>item_section = None, item_text = ustr ''A. Smith - "Senior Consultant"''\<rparr>,
      \<lparr>item_section = Some (ustr ''Executive Summary''), item_text = ustr ''Seasoned advisor''\<rparr>,
      \<lparr>item_section = None, item_text = ustr ''Ten years''\<rparr>,
      \<lparr>item_section = Some (ustr ''Technical Expertise''), item_text = ustr ''Python''\<rparr>,
      \<lparr>item_section = None, item_text = ustr ''SQL''\<rparr>]
   = Inr \<lparr>sharePointRef = PNone, sections =
       [\<lparr>section_name = ustr ''Name'', section_content = PStr (ustr ''A. Smith'')\<rparr>,
        \<lparr>section_name = ustr ''Job Title'',
         section_content = PStr (ustr ''Senior Consultant'')\<rparr>,
        \<lparr>section_name = ustr ''Executive Summary'',
         section_content = PList [PStr (ustr ''Seasoned advisor''), PStr (ustr ''Ten years'')]\<rparr>,
        \<lparr>section_name = ustr ''Technical Expertise'', section_content = PStr (ustr ''Python'')\<rparr>,
        \<lparr>section_name = ustr ''Technical Expertise'', section_content = PStr (ustr ''SQL'')\<rparr>]\<rparr>\<close>
  by (simp add: eval_defs)

text \<open>
  C6 as amended, for any sections map (a dictionary: its keys are distinct): a section of
  \<^verbatim>\<open>BULLET_SECTIONS\<close>, or Experience, whose value is a list of non-empty values yields
  one entry per value, in order, each holding that value; Executive Summary and Mobility
  with a non-empty list yield exactly one entry holding the whole list; Name, Email and
  Job Title with a non-empty string yield exactly one entry holding that string.
\<close>

theorem C6_assembler_entries:
  assumes "distinct (map fst m)"
  shows "((s \<in> set BULLET_SECTIONS \<or> s = ustr ''Experience'') \<and>
          map_of m s = Some (PList vals) \<and> list_all truthy vals \<longrightarrow>
            entries_named s (build_content_list m) =
              map (\<lambda>v. \<lparr>section_name = s, section_content = v\<rparr>) vals) \<and>
         ((s = ustr ''Executive Summary'' \<or> s = ustr ''Mobility'') \<and>
          map_of m s = Some (PList vals) \<and> vals \<noteq> [] \<longrightarrow>
            entries_named s (build_content_list m) =
              [\<lparr>section_name = s, section_content = PList vals\<rparr>]) \<and>
         ((s = ustr ''Name'' \<or> s = ustr ''Email'' \<or> s = ustr ''Job Title'') \<and>
          map_of m s = Some (PStr t) \<and> t \<noteq> [] \<longrightarrow>
            entries_named s (build_content_list m) =
              [\<lparr>section_name = s, section_content = PStr t\<rparr>])"
proof (intro conjI impI)
  assume a: "(s \<in> set BULLET_SECTIONS \<or> s = ustr ''Experience'') \<and>
          map_of m s = Some (PList vals) \<and> list_all truthy vals"
  then have nl: "s \<notin> set LONGFORM_SECTIONS"
    by (auto simp: section_lists)
  from a have f: "filter truthy vals = vals"
    by (simp add: list_all_iff filter_id_conv)
  from a have "s \<in> set (map fst m)" by (auto dest: map_of_keys)
  with a nl f show "entries_named s (build_content_list m) =
              map (\<lambda>v. \<lparr>section_name = s, section_content = v\<rparr>) vals"
    by (cases vals) (simp_all add: entries_named_build [OF assms] section_entries_def)
next
  assume a: "(s = ustr ''Executive Summary'' \<or> s = ustr ''Mobility'') \<and>
          map_of m s = Some (PList vals) \<and> vals \<noteq> []"
  then have l: "s \<in> set LONGFORM_SECTIONS"
    by (auto simp: section_lists)
  from a have "s \<in> set (map fst m)" by (auto dest: map_of_keys)
  with a l show "entries_named s (build_content_list m) =
              [\<lparr>section_name = s, section_content = PList vals\<rparr>]"
    by (simp add: entries_named_build [OF assms] section_entries_def)
next
  assume a: "(s = ustr ''Name'' \<or> s = ustr ''Email'' \<or> s = ustr ''Job Title'') \<and>
          map_of m s = Some (PStr t) \<and> t \<noteq> []"
  then have l: "s \<in> set LONGFORM_SECTIONS"
    by (auto simp: section_lists)
  from a have "s \<in> set (map fst m)" by (auto dest: map_of_keys)
  with a l show "entries_named s (build_content_list m) =
              [\<lparr>section_name = s, section_content = PStr t\<rparr>]"
    by (simp add: entries_named_build [OF assms] section_entries_def)
qed

theorem C6_assembler_entries_witness:
  "entries_named (ustr ''Technical Expertise'') (build_content_list
      [(ustr ''Name'', PStr (ustr ''A. Smith'')),
       (ustr ''Executive Summary'', PList [PStr (ustr ''a''), PStr (ustr ''b'')]),
       (ustr ''Technical Expertise'', PList [PStr (ustr ''x''), PStr (ustr ''y''), PStr (ustr ''z'')])])
     = [\<lparr>section_name = ustr ''Technical Expertise'', section_content = PStr (ustr ''x'')\<rparr>,
        \<lparr>section_name = ustr ''Technical Expertise'', section_content = PStr (ustr ''y'')\<rparr>,
        \<lparr>section_name = ustr ''Technical Expertise'', section_content = PStr (ustr ''z'')\<rparr>] \<and>
   entries_named (ustr ''Executive Summary'') (build_content_list
      [(ustr ''Name'', PStr (ustr ''A. Smith'')),
       (ustr ''Executive Summary'', PList [PStr (ustr ''a''), PStr (ustr ''b'')]),
       (ustr ''Technical Expertise'', PList [PStr (ustr ''x''), PStr (ustr ''y''), PStr (ustr ''z'')])])
     = [\<lparr>section_name = ustr ''Executive Summary'',
         section_content = PList [PStr (ustr ''a''), PStr (ustr ''b'')]\<rparr>] \<and>
   entries_named (ustr ''Name'') (build_content_list
      [(ustr ''Name'', PStr (ustr ''A. Smith'')),
       (ustr ''Executive Summary'', PList [PStr (ustr ''a''), PStr (ustr ''b'')]),
       (ustr ''Technical Expertise'', PList [PStr (ustr ''x''), PStr (ustr ''y''), PStr (ustr ''z'')])])
     = [\<lparr>section_name = ustr ''Name'', section_content = PStr (ustr ''A. Smith'')\<rparr>]"
proof -
  let ?m = "[(ustr ''Name'', PStr (ustr ''A. Smith'')),
       (ustr ''Executive Summary'', PList [PStr (ustr ''a''), PStr (ustr ''b'')]),
       (ustr ''Technical Expertise'',
        PList [PStr (ustr ''x''), PStr (ustr ''y''), PStr (ustr ''z'')])]"
  have d: "distinct (map fst ?m)" by (simp add: ustr_def)
  have 1: "entries_named (ustr ''Technical Expertise'') (build_content_list ?m)
     = [\<lparr>section_name = ustr ''Technical Expertise'', section_content = PStr (ustr ''x'')\<rparr>,
        \<lparr>section_name = ustr ''Technical Expertise'', section_content = PStr (ustr ''y'')\<rparr>,
        \<lparr>section_name = ustr ''Technical Expertise'', section_content = PStr (ustr ''z'')\<rparr>]"
    using C6_assembler_entries [OF d, where s = "ustr ''Technical Expertise''"
        and vals = "[PStr (ustr ''x''), PStr (ustr ''y''), PStr (ustr ''z'')]"]
    by (simp add: section_lists)
  have 2: "entries_named (ustr ''Executive Summary'') (build_content_list ?m)
     = [\<lparr>section_name = ustr ''Executive Summary'',
         section_content = PList [PStr (ustr ''a''), PStr (ustr ''b'')]\<rparr>]"
    using C6_assembler_entries [OF d, where s = "ustr ''Executive Summary''"
        and vals = "[PStr (ustr ''a''), PStr (ustr ''b'')]"]
    by (simp add: section_lists)
  have 3: "entries_named (ustr ''Name'') (build_content_list ?m)
     = [\<lparr>section_name = ustr ''Name'', section_content = PStr (ustr ''A. Smith'')\<rparr>]"
    using C6_assembler_entries [OF d, where s = "ustr ''Name''" and t = "ustr ''A. Smith''"]
    by (simp add: section_lists)
  from 1 2 3 show ?thesis by (intro conjI)
qed

text \<open>
  C7 (a fragment whose text does not exactly match one of the twelve section names never
  changes the current section, and its text goes to the section that is active). The
  reader compares the stripped text of a span: \<^verbatim>\<open> Mobility \<close>, with a space on either
  side, is none of the twelve names, yet it switches the section, and the next span is
  tagged Mobility. The aggregation makes any hint that is not empty the current section
  (line 161): on a fragment hinted \<^verbatim>\<open>Hobbies\<close> the current section becomes \<^verbatim>\<open>Hobbies\<close>,
  which is no key of the map, and the text is dropped instead of going to Executive
  Summary.
\<close>

theorem C7_padded_heading_switches_section:
  "ustr '' Mobility '' \<notin> set REQUIRED_SECTIONS \<and>
   foldl read_span (None, [])
     [ustr ''Executive Summary'', ustr ''Seasoned advisor'', ustr '' Mobility '', ustr ''Paris'']
     = (Some (ustr ''Mobility''),
        [\<lparr>item_section = Some (ustr ''Executive Summary''), item_text = ustr ''Seasoned advisor''\<rparr>,
         \<lparr>item_section = Some (ustr ''Mobility''), item_text = ustr ''Paris''\<rparr>]) \<and>
   agg_step (aggregate
        [\<lparr>item_section = Some (ustr ''Executive Summary''), item_text = ustr ''Seasoned advisor''\<rparr>])
      \<lparr>item_section = Some (ustr ''Hobbies''), item_text = ustr ''chess''\<rparr>
     = (Some (ustr ''Hobbies''),
        AList.update (ustr ''Executive Summary'') (PList [PStr (ustr ''Seasoned advisor'')])
          (map (\<lambda>s. (s, PList [])) REQUIRED_SECTIONS))"
  by (simp add: eval_defs)

text \<open>
  C7 as amended. The reader: a span whose text, stripped of surrounding whitespace, is
  one of the twelve names switches the section to that name and adds no fragment; any
  other span keeps the section and adds its stripped text tagged with it, and in the
  aggregation of the reader's fragments that fragment leaves the current section as the
  reader had it, its text being appended to the list of that section, or dropped when no
  section is active yet or the text is empty. The aggregation, from the state reached on
  any list of fragments and on any fragment: a missing or empty hint keeps the current
  section, and any other hint makes the stripped hint the current section, recognized or
  not; the stripped text, when not empty, is appended to the list of the current section
  if that is one of the twelve names, and the map is left as it is otherwise. Both steps
  are total functions: there is no error to return.
\<close>

theorem C7_stripped_text_decides_the_section:
  assumes reader: "foldl read_span (None, []) spans = (cur, content)"
      and agg: "aggregate content0 = (ac, m)"
  shows "(strip t \<in> set REQUIRED_SECTIONS \<longrightarrow>
            read_span (cur, content) t = (Some (strip t), content)) \<and>
         (strip t \<notin> set REQUIRED_SECTIONS \<longrightarrow> set content0 \<subseteq> set content \<longrightarrow>
            read_span (cur, content) t =
              (cur, content @ [\<lparr>item_section = cur, item_text = strip t\<rparr>]) \<and>
            fst (agg_step (ac, m) \<lparr>item_section = cur, item_text = strip t\<rparr>) = cur \<and>
            (case cur of
               None \<Rightarrow> snd (agg_step (ac, m) \<lparr>item_section = cur, item_text = strip t\<rparr>) = m
             | Some s \<Rightarrow>
                 s \<in> set REQUIRED_SECTIONS \<and>
                 (if strip t = []
                  then snd (agg_step (ac, m) \<lparr>item_section = cur, item_text = strip t\<rparr>) = m
                  else \<exists>vs. map_of m s = Some (PList vs) \<and>
                         snd (agg_step (ac, m) \<lparr>item_section = cur, item_text = strip t\<rparr>) =
                           AList.update s (PList (vs @ [PStr (strip t)])) m))) \<and>
         fst (agg_step (ac, m) it) =
           (case item_section it of None \<Rightarrow> ac
            | Some h \<Rightarrow> if h = [] then ac else Some (strip h)) \<and>
         (if fst (agg_step (ac, m) it) \<in> Some ` set REQUIRED_SECTIONS \<and>
             strip (item_text it) \<noteq> []
          then \<exists>vs. map_of m (the (fst (agg_step (ac, m) it))) = Some (PList vs) \<and>
                 snd (agg_step (ac, m) it) =
                   AList.update (the (fst (agg_step (ac, m) it)))
                     (PList (vs @ [PStr (strip (item_text it))])) m
          else snd (agg_step (ac, m) it) = m)"
proof -
  have inv: "read_inv (cur, content)"
    using foldl_read_inv [OF read_inv_init, of spans] reader by simp
  have keys: "map fst m = REQUIRED_SECTIONS"
    using aggregate_keys [of content0] agg by simp
  have lists: "lists_only m"
    using aggregate_lists [of content0] agg by simp
  have p1: "strip t \<in> set REQUIRED_SECTIONS \<longrightarrow>
            read_span (cur, content) t = (Some (strip t), content)"
    by (simp add: Let_def)
  have p2: "strip t \<notin> set REQUIRED_SECTIONS \<longrightarrow> set content0 \<subseteq> set content \<longrightarrow>
            read_span (cur, content) t =
              (cur, content @ [\<lparr>item_section = cur, item_text = strip t\<rparr>]) \<and>
            fst (agg_step (ac, m) \<lparr>item_section = cur, item_text = strip t\<rparr>) = cur \<and>
            (case cur of
               None \<Rightarrow> snd (agg_step (ac, m) \<lparr>item_section = cur, item_text = strip t\<rparr>) = m
             | Some s \<Rightarrow>
                 s \<in> set REQUIRED_SECTIONS \<and>
                 (if strip t = []
                  then snd (agg_step (ac, m) \<lparr>item_section = cur, item_text = strip t\<rparr>) = m
                  else \<exists>vs. map_of m s = Some (PList vs) \<and>
                         snd (agg_step (ac, m) \<lparr>item_section = cur, item_text = strip t\<rparr>) =
                           AList.update s (PList (vs @ [PStr (strip t)])) m))"
  proof (intro impI)
    assume unrec: "strip t \<notin> set REQUIRED_SECTIONS" and sub: "set content0 \<subseteq> set content"
    have r: "read_span (cur, content) t =
             (cur, content @ [\<lparr>item_section = cur, item_text = strip t\<rparr>])"
      using unrec by (simp add: Let_def)
    show "read_span (cur, content) t =
              (cur, content @ [\<lparr>item_section = cur, item_text = strip t\<rparr>]) \<and>
            fst (agg_step (ac, m) \<lparr>item_section = cur, item_text = strip t\<rparr>) = cur \<and>
            (case cur of
               None \<Rightarrow> snd (agg_step (ac, m) \<lparr>item_section = cur, item_text = strip t\<rparr>) = m
             | Some s \<Rightarrow>
                 s \<in> set REQUIRED_SECTIONS \<and>
                 (if strip t = []
                  then snd (agg_step (ac, m) \<lparr>item_section = cur, item_text = strip t\<rparr>) = m
                  else \<exists>vs. map_of m s = Some (PList vs) \<and>
                         snd (agg_step (ac, m) \<lparr>item_section = cur, item_text = strip t\<rparr>) =
                           AList.update s (PList (vs @ [PStr (strip t)])) m))"
    proof (cases cur)
      case None
      with inv sub have "\<forall>it \<in> set content0. item_section it = None"
        by (auto simp: read_inv_def)
      then have "ac = None" using aggregate_untagged [of content0] agg by simp
      with None r show ?thesis by (simp add: agg_step_def Let_def)
    next
      case (Some s)
      with inv have s: "s \<in> set REQUIRED_SECTIONS" by (auto simp: read_inv_def tag_ok_def)
      then have sne: "s \<noteq> []" and ss: "strip s = s"
        using required_sections_stripped by blast+
      from map_of_required [OF keys s] obtain v where v: "map_of m s = Some v" by blast
      from lists_only_map_of [OF lists v] obtain vs where vs: "v = PList vs" by blast
      from Some r s sne ss v vs show ?thesis
        by (cases vs) (simp_all add: agg_step_def Let_def strip_idem py_append_def)
    qed
  qed
  from p1 p2 agg_step_cursor [of ac m it] agg_step_map [OF keys lists, of ac it]
  show ?thesis by (intro conjI)
qed

theorem C7_stripped_text_decides_the_section_witness:
  "foldl read_span (None, []) [ustr ''Technical Expertise'', ustr '' Python '']
     = (Some (ustr ''Technical Expertise''),
        [\<lparr>item_section = Some (ustr ''Technical Expertise''), item_text = ustr ''Python''\<rparr>]) \<and>
   strip (ustr '' Mobility '') \<in> set REQUIRED_SECTIONS \<and>
   read_span (Some (ustr ''Technical Expertise''),
        [\<lparr>item_section = Some (ustr ''Technical Expertise''), item_text = ustr ''Python''\<rparr>])
      (ustr '' Mobility '')
     = (Some (ustr ''Mobility''),
        [\<lparr>item_section = Some (ustr ''Technical Expertise''), item_text = ustr ''Python''\<rparr>]) \<and>
   strip (ustr ''Key Skills'') \<notin> set REQUIRED_SECTIONS \<and>
   read_span (Some (ustr ''Technical Expertise''),
        [\<lparr>item_section = Some (ustr ''Technical Expertise''), item_text = ustr ''Python''\<rparr>])
      (ustr ''Key Skills'')
     = (Some (ustr ''Technical Expertise''),
        [\<lparr>item_section = Some (ustr ''Technical Expertise''), item_text = ustr ''Python''\<rparr>,
         \<lparr>item_section = Some (ustr ''Technical Expertise''), item_text = ustr ''Key Skills''\<rparr>]) \<and>
   agg_step (aggregate
        [\<lparr>item_section = Some (ustr ''Technical Expertise''), item_text = ustr ''Python''\<rparr>])
      \<lparr>item_section = Some (ustr ''Technical Expertise''), item_text = ustr ''Key Skills''\<rparr>
     = (Some (ustr ''Technical Expertise''),
        AList.update (ustr ''Technical Expertise'')
          (PList [PStr (ustr ''Python''), PStr (ustr ''Key Skills'')])
          (map (\<lambda>s. (s, PList [])) REQUIRED_SECTIONS)) \<and>
   agg_step (aggregate
        [\<lparr>item_section = Some (ustr ''Technical Expertise''), item_text = ustr ''Python''\<rparr>])
      \<lparr>item_section = Some (ustr ''Hobbies''), item_text = ustr ''chess''\<rparr>
     = (Some (ustr ''Hobbies''),
        AList.update (ustr ''Technical Expertise'') (PList [PStr (ustr ''Python'')])
          (map (\<lambda>s. (s, PList [])) REQUIRED_SECTIONS))"
proof -
  let ?te = "ustr ''Technical Expertise''"
  let ?it = "\<lparr>item_section = Some ?te, item_text = ustr ''Python''\<rparr>"
  let ?hob = "\<lparr>item_section = Some (ustr ''Hobbies''), item_text = ustr ''chess''\<rparr>"
  let ?m = "AList.update ?te (PList [PStr (ustr ''Python'')])
          (map (\<lambda>s. (s, PList [])) REQUIRED_SECTIONS)"
  have rd: "foldl read_span (None, []) [?te, ustr '' Python ''] = (Some ?te, [?it])"
    by (simp add: eval_defs)
  have mo: "strip (ustr '' Mobility '') \<in> set REQUIRED_SECTIONS"
    by (simp add: eval_defs)
  have sm: "strip (ustr '' Mobility '') = ustr ''Mobility''"
    by (simp add: eval_defs)
  have un: "strip (ustr ''Key Skills'') \<notin> set REQUIRED_SECTIONS"
    by (simp add: eval_defs)
  have st: "strip (ustr ''Key Skills'') = ustr ''Key Skills''"
    by (simp add: eval_defs)
  have sub: "set [?it] \<subseteq> set [?it]" by simp
  have ag: "aggregate [?it] = (Some ?te, ?m)"
    by (simp add: eval_defs)
  have up: "AList.update ?te (PList [PStr (ustr ''Python''), PStr (ustr ''Key Skills'')]) ?m
     = AList.update ?te (PList [PStr (ustr ''Python''), PStr (ustr ''Key Skills'')])
          (map (\<lambda>s. (s, PList [])) REQUIRED_SECTIONS)"
    by simp
  have mp: "map_of ?m ?te = Some (PList [PStr (ustr ''Python'')])"
    by (simp add: update_conv')
  note T = C7_stripped_text_decides_the_section [OF rd ag]
  from T [THEN conjunct1, rule_format, OF mo]
  have sw: "read_span (Some ?te, [?it]) (ustr '' Mobility '') = (Some (ustr ''Mobility''), [?it])"
    unfolding sm .
  from T [THEN conjunct2, THEN conjunct1, rule_format, OF un sub]
  have c: "read_span (Some ?te, [?it]) (ustr ''Key Skills'') =
             (Some ?te, [?it] @ [\<lparr>item_section = Some ?te, item_text = ustr ''Key Skills''\<rparr>])"
    and a1: "fst (agg_step (Some ?te, ?m)
                \<lparr>item_section = Some ?te, item_text = ustr ''Key Skills''\<rparr>) = Some ?te"
    and a2: "snd (agg_step (Some ?te, ?m)
                \<lparr>item_section = Some ?te, item_text = ustr ''Key Skills''\<rparr>) =
             AList.update ?te (PList [PStr (ustr ''Python''), PStr (ustr ''Key Skills'')]) ?m"
    unfolding st using mp by (auto simp: ustr_def)
  from a1 a2 have ks: "agg_step (Some ?te, ?m)
                \<lparr>item_section = Some ?te, item_text = ustr ''Key Skills''\<rparr> =
      (Some ?te, AList.update ?te
         (PList [PStr (ustr ''Python''), PStr (ustr ''Key Skills'')]) ?m)"
    by (metis prod.collapse)
  have sh: "strip (ustr ''Hobbies'') = ustr ''Hobbies''"
    by (simp add: eval_defs)
  have nh: "Some (ustr ''Hobbies'') \<notin> Some ` set REQUIRED_SECTIONS"
    by (simp add: REQUIRED_SECTIONS_def ustr_def)
  from T [where it = "?hob", THEN conjunct2, THEN conjunct2, THEN conjunct1]
  have h1: "fst (agg_step (Some ?te, ?m) ?hob) = Some (ustr ''Hobbies'')"
    using sh by (simp add: ustr_def)
  from T [where it = "?hob", THEN conjunct2, THEN conjunct2, THEN conjunct2]
  have h2: "snd (agg_step (Some ?te, ?m) ?hob) = ?m"
    unfolding h1 using nh by (simp only: if_False simp_thms)
  from h1 h2 have hb: "agg_step (Some ?te, ?m) ?hob = (Some (ustr ''Hobbies''), ?m)"
    by (metis prod.collapse)
  from rd mo sw un c ks hb ag up show ?thesis by simp
qed







text \<open>
  C10 (every entry of the output document is named by one of the twelve recognized
  section names). The entries are built from the keys of \<^verbatim>\<open>sections_map\<close>, which are
  \<^verbatim>\<open>REQUIRED_SECTIONS\<close> from its creation on: whenever \<^verbatim>\<open>_parse_profile\<close> returns a
  document, the name of each of its entries is in \<^verbatim>\<open>REQUIRED_SECTIONS\<close>.
\<close>

theorem C10_section_names_recognized:
  assumes "parse_profile U content = Inr doc" and "e \<in> set (sections doc)"
  shows "section_name e \<in> set REQUIRED_SECTIONS"
  using parse_profile_keys [OF assms(1)] assms(2) build_content_list_names by fastforce

theorem C10_section_names_recognized_witness:
  \<open>parse_profile ascii_only
     [\<lparr>item_section = None, item_text = ustr ''A. Smith - "Senior Consultant"''\<rparr>]
   = Inr \<lparr>sharePointRef = PNone, sections =
       [\<lparr>section_name = ustr ''Name'', section_content = PStr (ustr ''A. Smith'')\<rparr>,
        \<lparr>section_name = ustr ''Job Title'',
         section_content = PStr (ustr ''Senior Consultant'')\<rparr>]\<rparr>
   \<and> section_name \<lparr>section_name = ustr ''Job Title'',
         section_content = PStr (ustr ''Senior Consultant'')\<rparr> \<in> set REQUIRED_SECTIONS\<close>
proof -
  have run: \<open>parse_profile ascii_only
     [\<lparr>item_section = None, item_text = ustr ''A. Smith - "Senior Consultant"''\<rparr>]
   = Inr \<lparr>sharePointRef = PNone, sections =
       [\<lparr>section_name = ustr ''Name'', section_content = PStr (ustr ''A. Smith'')\<rparr>,
        \<lparr>section_name = ustr ''Job Title'',
         section_content = PStr (ustr ''Senior Consultant'')\<rparr>]\<rparr>\<close>
    by (simp add: eval_defs)
  from C10_section_names_recognized [OF run, of "\<lparr>section_name = ustr ''Job Title'',
         section_content = PStr (ustr ''Senior Consultant'')\<rparr>"] run
  show ?thesis by simp
qed

end
